theory Spec2Isabelle
  imports Main
begin

section \<open>Python values used by the program\<close>

text \<open>
  The exceptions the modelled code can raise. A function that can raise returns
  \<open>error + 'a\<close>, with \<open>Inl\<close> for the exception.
\<close>

datatype error = ValueError | KeyError | IndexError | RecursionError | OSError

text \<open>
  A Python \<open>dict\<close> with string keys: an association list in insertion order, keys distinct.
\<close>

type_synonym 'v dict = "(string \<times> 'v) list"

definition dict_get :: "'v dict \<Rightarrow> string \<Rightarrow> 'v \<Rightarrow> 'v" where
  \<comment> \<open>\<open>d.get(k, dflt)\<close>: never inserts.\<close>
  "dict_get d k dflt = (case map_of d k of None \<Rightarrow> dflt | Some v \<Rightarrow> v)"

fun dict_set :: "'v dict \<Rightarrow> string \<Rightarrow> 'v \<Rightarrow> 'v dict" where
  \<comment> \<open>\<open>d[k] = v\<close>: replaces in place, or appends a new key.\<close>
  "dict_set [] k v = [(k, v)]"
| "dict_set ((k', v') # d) k v =
     (if k' = k then (k, v) # d else (k', v') # dict_set d k v)"

definition dd_getitem :: "'v list dict \<Rightarrow> string \<Rightarrow> 'v list \<times> 'v list dict" where
  \<comment> \<open>\<open>d[k]\<close> on a \<open>defaultdict(list)\<close>: a missing key is inserted with \<open>[]\<close>.
      Returns the value and the dictionary after the access.\<close>
  "dd_getitem d k =
     (case map_of d k of Some v \<Rightarrow> (v, d) | None \<Rightarrow> ([], dict_set d k []))"

definition dd_append :: "'v list dict \<Rightarrow> string \<Rightarrow> 'v \<Rightarrow> 'v list dict" where
  \<comment> \<open>\<open>d[k].append(x)\<close> on a \<open>defaultdict(list)\<close>.\<close>
  "dd_append d k x = dict_set d k (fst (dd_getitem d k) @ [x])"

definition set_add :: "'a list \<Rightarrow> 'a \<Rightarrow> 'a list" where
  \<comment> \<open>\<open>s.add(x)\<close> on a Python \<open>set\<close> kept as a duplicate-free list. Python does not
      specify the iteration order of a set; the list order stands for whichever order the
      interpreter uses.\<close>
  "set_add s x = (if x \<in> set s then s else s @ [x])"

fun list_index :: "'a list \<Rightarrow> 'a \<Rightarrow> error + nat" where
  \<comment> \<open>\<open>xs.index(x)\<close>: the first position of \<open>x\<close>, \<open>ValueError\<close> when absent.\<close>
  "list_index [] x = Inl ValueError"
| "list_index (y # ys) x =
     (if y = x then Inr 0
      else case list_index ys x of Inl e \<Rightarrow> Inl e | Inr i \<Rightarrow> Inr (Suc i))"

subsection \<open>Strings\<close>

text \<open>
  A \<open>str\<close> is a \<open>string\<close>; a character stands for a code point below 256.
\<close>

definition dq :: char where "dq = CHR 0x22"
definition sq :: char where "sq = CHR 0x27"

definition endswith :: "string \<Rightarrow> string \<Rightarrow> bool" where
  "endswith s suf = (length suf \<le> length s \<and> drop (length s - length suf) s = suf)"

fun startswith :: "string \<Rightarrow> string \<Rightarrow> bool" where
  "startswith s [] = True"
| "startswith [] (p # ps) = False"
| "startswith (x # xs) (p # ps) = (x = p \<and> startswith xs ps)"

fun contains :: "string \<Rightarrow> string \<Rightarrow> bool" where
  \<comment> \<open>\<open>sub in s\<close>\<close>
  "contains [] sub = (sub = [])"
| "contains (x # xs) sub = (startswith (x # xs) sub \<or> contains xs sub)"

definition strip_char :: "char \<Rightarrow> string \<Rightarrow> string" where
  \<comment> \<open>\<open>s.strip(c)\<close> for a one-character argument\<close>
  "strip_char c s = rev (dropWhile (\<lambda>x. x = c) (rev (dropWhile (\<lambda>x. x = c) s)))"

fun split_char :: "char \<Rightarrow> string \<Rightarrow> string list" where
  \<comment> \<open>\<open>s.split(c)\<close> for a one-character separator: never the empty list\<close>
  "split_char c [] = [[]]"
| "split_char c (x # xs) =
     (if x = c then [] # split_char c xs
      else case split_char c xs of
             [] \<Rightarrow> [[x]]
           | p # ps \<Rightarrow> (x # p) # ps)"

definition replace_char :: "char \<Rightarrow> char \<Rightarrow> string \<Rightarrow> string" where
  "replace_char a b s = map (\<lambda>x. if x = a then b else x) s"

definition truthy :: "string option \<Rightarrow> bool" where
  \<comment> \<open>the truth value Python gives \<open>None\<close> or a \<open>str\<close>\<close>
  "truthy v = (case v of None \<Rightarrow> False | Some s \<Rightarrow> s \<noteq> [])"

section \<open>Regular expressions\<close>

text \<open>
  The program's patterns use literals, character classes, greedy and lazy repetition of
  one character class, an optional character and capture groups; one pattern has a
  top-level alternation. The matcher below is a backtracking matcher with the priorities
  of Python's \<open>re\<close>: a greedy repetition tries the longest run first, a lazy one the
  shortest, and the first complete match wins. \<open>X+\<close> is written \<open>X X*\<close>.
\<close>

datatype cclass =
    Lit char              \<comment> \<open>the character itself\<close>
  | Dot                   \<comment> \<open>\<open>.\<close> without DOTALL: anything but a newline\<close>
  | DotAll                \<comment> \<open>\<open>.\<close> under DOTALL\<close>
  | Space                 \<comment> \<open>\<open>\s\<close>\<close>
  | Digit                 \<comment> \<open>\<open>\d\<close>\<close>
  | OneOf "char list"     \<comment> \<open>\<open>[...]\<close>\<close>
  | NoneOf "char list"    \<comment> \<open>\<open>[^...]\<close>\<close>

definition is_space :: "char \<Rightarrow> bool" where
  "is_space x = (x \<in> set [CHR 0x09, CHR 0x0A, CHR 0x0B, CHR 0x0C, CHR 0x0D,
                           CHR 0x1C, CHR 0x1D, CHR 0x1E, CHR 0x1F, CHR 0x20,
                           CHR 0x85, CHR 0xA0])"

definition is_digit :: "char \<Rightarrow> bool" where
  "is_digit x = (x \<in> set ''0123456789'')"

fun cmatch :: "cclass \<Rightarrow> char \<Rightarrow> bool" where
  "cmatch (Lit c) x = (x = c)"
| "cmatch Dot x = (x \<noteq> CHR 0x0A)"
| "cmatch DotAll x = True"
| "cmatch Space x = is_space x"
| "cmatch Digit x = is_digit x"
| "cmatch (OneOf cs) x = (x \<in> set cs)"
| "cmatch (NoneOf cs) x = (x \<notin> set cs)"

datatype item =
    One cclass            \<comment> \<open>one character of the class\<close>
  | Star cclass           \<comment> \<open>\<open>X*\<close>, greedy\<close>
  | StarLazy cclass       \<comment> \<open>\<open>X*?\<close>\<close>
  | Opt cclass            \<comment> \<open>\<open>X?\<close>, greedy\<close>
  | Open nat              \<comment> \<open>\<open>(\<close> of group n\<close>
  | Close nat             \<comment> \<open>\<open>)\<close> of group n\<close>

type_synonym regex = "item list"

definition lit :: "string \<Rightarrow> regex" where
  "lit s = map (\<lambda>c. One (Lit c)) s"

definition plus :: "cclass \<Rightarrow> regex" where
  "plus c = [One c, Star c]"

definition plus_lazy :: "cclass \<Rightarrow> regex" where
  "plus_lazy c = [One c, StarLazy c]"

definition grp :: "nat \<Rightarrow> regex \<Rightarrow> regex" where
  "grp n r = Open n # r @ [Close n]"

text \<open>
  \<open>rmatch r s opens caps\<close> matches \<open>r\<close> at the start of \<open>s\<close>. \<open>opens\<close> holds, for each
  group opened so far, the input that was left when it opened; \<open>caps\<close> the text of each
  closed group. The result is the captures and the input left after the match.
\<close>

fun rmatch :: "regex \<Rightarrow> string \<Rightarrow> (nat \<times> string) list \<Rightarrow> (nat \<times> string) list
                \<Rightarrow> ((nat \<times> string) list \<times> string) option" where
  "rmatch [] s opens caps = Some (caps, s)"
| "rmatch (One c # r) [] opens caps = None"
| "rmatch (One c # r) (x # xs) opens caps =
     (if cmatch c x then rmatch r xs opens caps else None)"
| "rmatch (Star c # r) [] opens caps = rmatch r [] opens caps"
| "rmatch (Star c # r) (x # xs) opens caps =
     (if cmatch c x then
        (case rmatch (Star c # r) xs opens caps of
           Some m \<Rightarrow> Some m
         | None \<Rightarrow> rmatch r (x # xs) opens caps)
      else rmatch r (x # xs) opens caps)"
| "rmatch (StarLazy c # r) [] opens caps = rmatch r [] opens caps"
| "rmatch (StarLazy c # r) (x # xs) opens caps =
     (case rmatch r (x # xs) opens caps of
        Some m \<Rightarrow> Some m
      | None \<Rightarrow> if cmatch c x then rmatch (StarLazy c # r) xs opens caps else None)"
| "rmatch (Opt c # r) [] opens caps = rmatch r [] opens caps"
| "rmatch (Opt c # r) (x # xs) opens caps =
     (if cmatch c x then
        (case rmatch r xs opens caps of
           Some m \<Rightarrow> Some m
         | None \<Rightarrow> rmatch r (x # xs) opens caps)
      else rmatch r (x # xs) opens caps)"
| "rmatch (Open n # r) s opens caps = rmatch r s ((n, s) # opens) caps"
| "rmatch (Close n # r) s opens caps =
     (case map_of opens n of
        None \<Rightarrow> None
      | Some s0 \<Rightarrow> rmatch r s opens ((n, take (length s0 - length s) s0) # caps))"

text \<open>A match object: the groups, the whole matched text, and the input after it.\<close>

record rematch =
  groups :: "(nat \<times> string) list"
  matched :: string
  rest :: string

definition group :: "rematch \<Rightarrow> nat \<Rightarrow> string option" where
  \<comment> \<open>\<open>m.group(n)\<close>: \<open>None\<close> for a group that took no part in the match\<close>
  "group m n = map_of (groups m) n"

definition lastindex :: "rematch \<Rightarrow> nat" where
  \<comment> \<open>\<open>m.lastindex\<close>, for a pattern whose groups are not nested: the highest group matched\<close>
  "lastindex m = fold max (map fst (groups m)) 0"

fun match_alts :: "regex list \<Rightarrow> string \<Rightarrow> rematch option" where
  \<comment> \<open>the alternatives \<open>r1|r2|...\<close> at the start of \<open>s\<close>, leftmost alternative first\<close>
  "match_alts [] s = None"
| "match_alts (r # rs) s =
     (case rmatch r s [] [] of
        Some (caps, s') \<Rightarrow>
          Some \<lparr>groups = caps, matched = take (length s - length s') s, rest = s'\<rparr>
      | None \<Rightarrow> match_alts rs s)"

fun search_alts :: "regex list \<Rightarrow> string \<Rightarrow> rematch option" where
  \<comment> \<open>\<open>re.search\<close>: the match at the leftmost position that has one\<close>
  "search_alts rs [] = match_alts rs []"
| "search_alts rs (x # xs) =
     (case match_alts rs (x # xs) of
        Some m \<Rightarrow> Some m
      | None \<Rightarrow> search_alts rs xs)"

definition re_search :: "regex \<Rightarrow> string \<Rightarrow> rematch option" where
  "re_search r s = search_alts [r] s"

text \<open>
  \<open>re.finditer\<close>: the successive non-overlapping matches. Every pattern of this program
  consumes at least one character, so the input left after a match is shorter and the
  guard below holds at every match; it only stops the scan after an empty match, which
  these patterns cannot produce.
\<close>

function re_finditer :: "regex \<Rightarrow> string \<Rightarrow> rematch list" where
  "re_finditer r s =
     (case re_search r s of
        None \<Rightarrow> []
      | Some m \<Rightarrow> m # (if length (rest m) < length s then re_finditer r (rest m) else []))"
  by pat_completeness auto
termination
  by (relation "measure (\<lambda>(r, s). length s)") auto

definition findall_group1 :: "regex \<Rightarrow> string \<Rightarrow> string list" where
  \<comment> \<open>\<open>re.findall\<close> for a pattern with one group: the text of group 1 of every match\<close>
  "findall_group1 r s =
     map (\<lambda>m. case group m 1 of None \<Rightarrow> [] | Some t \<Rightarrow> t) (re_finditer r s)"

definition findall_whole :: "regex \<Rightarrow> string \<Rightarrow> string list" where
  \<comment> \<open>\<open>re.findall\<close> for a pattern without groups: the whole text of every match\<close>
  "findall_whole r s = map matched (re_finditer r s)"


section \<open>The identifier normalizer\<close>

subsection \<open>The path component of \<open>urllib.parse.urlparse\<close>\<close>

text \<open>
  \<open>urlparse\<close> is library code. The model follows \<open>urlsplit\<close> and \<open>urlparse\<close> of
  CPython 3.11: leading control characters and spaces are dropped, tabs and line breaks
  removed, a scheme is split off at the first colon, a network location after \<open>//\<close>,
  then the fragment, the query and the parameters of the last path segment. An
  unbalanced square bracket in the network location raises \<open>ValueError\<close>. The library
  also raises \<open>ValueError\<close> when the text between balanced brackets is not an IPv6 or
  IPvFuture address; that check is not modelled, and for a network location with balanced
  brackets the model returns the path.
\<close>

definition c0_control_or_space :: "char \<Rightarrow> bool" where
  "c0_control_or_space x = ((of_char x :: nat) \<le> 0x20)"

definition unsafe_url_byte :: "char \<Rightarrow> bool" where
  "unsafe_url_byte x = (x \<in> set [CHR 0x09, CHR 0x0D, CHR 0x0A])"

definition ascii_upper :: string where "ascii_upper = ''ABCDEFGHIJKLMNOPQRSTUVWXYZ''"
definition ascii_lower :: string where "ascii_lower = ''abcdefghijklmnopqrstuvwxyz''"

definition is_ascii_alpha :: "char \<Rightarrow> bool" where
  "is_ascii_alpha x = (x \<in> set ascii_upper \<or> x \<in> set ascii_lower)"

definition scheme_char :: "char \<Rightarrow> bool" where
  "scheme_char x = (is_ascii_alpha x \<or> x \<in> set ''0123456789+-.'')"

definition lower_char :: "char \<Rightarrow> char" where
  "lower_char x = (case map_of (zip ascii_upper ascii_lower) x of None \<Rightarrow> x | Some y \<Rightarrow> y)"

definition uses_params :: "string list" where
  "uses_params = ['''', ''ftp'', ''hdl'', ''prospero'', ''http'', ''imap'', ''https'',
                  ''shttp'', ''rtsp'', ''rtsps'', ''rtspu'', ''sip'', ''sips'', ''mms'',
                  ''sftp'', ''tel'']"

definition split_scheme :: "string \<Rightarrow> string \<times> string" where
  \<comment> \<open>the scheme, lower-cased, and what follows its colon; no scheme: \<open>('''', url)\<close>\<close>
  "split_scheme url =
     (let s = takeWhile (\<lambda>x. x \<noteq> CHR '':'') url in
      if CHR '':'' \<in> set url \<and> s \<noteq> [] \<and> is_ascii_alpha (hd s) \<and> list_all scheme_char s
      then (map lower_char s, drop (Suc (length s)) url)
      else ('''', url))"

definition is_delim :: "char \<Rightarrow> bool" where
  "is_delim x = (x \<in> set ''/?#'')"

definition split_netloc :: "string \<Rightarrow> string \<times> string" where
  \<comment> \<open>the network location after a leading \<open>//\<close>, and what follows it\<close>
  "split_netloc url =
     (if take 2 url = ''//''
      then (takeWhile (\<lambda>x. \<not> is_delim x) (drop 2 url),
            dropWhile (\<lambda>x. \<not> is_delim x) (drop 2 url))
      else ('''', url))"

definition splitparams :: "string \<Rightarrow> string" where
  \<comment> \<open>the path without the parameters of its last segment\<close>
  "splitparams url =
     (if CHR ''/'' \<in> set url then
        (let last_seg = rev (takeWhile (\<lambda>x. x \<noteq> CHR ''/'') (rev url));
             front = take (length url - length last_seg) url
         in front @ takeWhile (\<lambda>x. x \<noteq> CHR '';'') last_seg)
      else takeWhile (\<lambda>x. x \<noteq> CHR '';'') url)"

definition urlparse_path :: "string \<Rightarrow> error + string" where
  \<comment> \<open>\<open>urlparse(url).path\<close>\<close>
  "urlparse_path url =
     (let url1 = filter (\<lambda>x. \<not> unsafe_url_byte x) (dropWhile c0_control_or_space url);
          (scheme, url2) = split_scheme url1;
          (netloc, url3) = split_netloc url2
      in if (CHR ''['' \<in> set netloc \<and> CHR '']'' \<notin> set netloc)
            \<or> (CHR '']'' \<in> set netloc \<and> CHR ''['' \<notin> set netloc)
         then Inl ValueError
         else
           (let url4 = takeWhile (\<lambda>x. x \<noteq> CHR ''#'') url3;
                url5 = takeWhile (\<lambda>x. x \<noteq> CHR ''?'') url4
            in if scheme \<in> set uses_params \<and> CHR '';'' \<in> set url5
               then Inr (splitparams url5)
               else Inr url5))"

subsection \<open>\<open>extract_repo_info\<close> (main.py) and \<open>extract_repo_info_from_url\<close> (the analyzer)\<close>

definition strip_git :: "string \<Rightarrow> string" where
  "strip_git github_url =
     (if endswith github_url ''.git'' then take (length github_url - 4) github_url
      else github_url)"

definition path_parts_of :: "string \<Rightarrow> error + string list" where
  \<comment> \<open>\<open>urlparse(github_url).path.strip('/').split('/')\<close> after the suffix is removed\<close>
  "path_parts_of github_url =
     (case urlparse_path (strip_git github_url) of
        Inl e \<Rightarrow> Inl e
      | Inr path \<Rightarrow> Inr (split_char CHR ''/'' (strip_char CHR ''/'' path)))"

definition extract_repo_info :: "string \<Rightarrow> error + (string option \<times> string option)" where
  "extract_repo_info github_url =
     (case path_parts_of github_url of
        Inl e \<Rightarrow> Inl e
      | Inr path_parts \<Rightarrow>
          if length path_parts \<ge> 2
          then Inr (Some (path_parts ! 0), Some (path_parts ! 1))
          else Inr (None, None))"

definition extract_repo_info_from_url :: "string \<Rightarrow> error + string option" where
  "extract_repo_info_from_url github_url =
     (case path_parts_of github_url of
        Inl e \<Rightarrow> Inl e
      | Inr path_parts \<Rightarrow>
          if length path_parts \<ge> 2
          then Inr (Some (path_parts ! 0 @ ''/'' @ path_parts ! 1))
          else Inr None)"

section \<open>The manifest parser\<close>

definition quote :: cclass where "quote = OneOf [dq, sq]"
definition nonquote :: cclass where "nonquote = NoneOf [dq, sq]"

definition dependencies_pattern :: regex where
  \<comment> \<open>\<open>dependencies:\s*\[(.*?)\]\<close>, searched with DOTALL\<close>
  "dependencies_pattern =
     lit ''dependencies:'' @ [Star Space, One (Lit CHR ''['')] @ grp 1 [StarLazy DotAll]
       @ [One (Lit CHR '']'')]"

definition package_patterns :: "regex list" where
  \<comment> \<open>\<open>\.package\s*\(\s*url:\s*["\']([^"\']+)["\'][^)]*\)\<close> and
      \<open>\.package\s*\(\s*["\']([^"\']+)["\'][^)]*\)\<close>\<close>
  "package_patterns =
     [lit ''.package'' @ [Star Space, One (Lit CHR ''(''), Star Space] @ lit ''url:''
        @ [Star Space, One quote] @ grp 1 (plus nonquote)
        @ [One quote, Star (NoneOf '')''), One (Lit CHR '')'')],
      lit ''.package'' @ [Star Space, One (Lit CHR ''(''), Star Space, One quote]
        @ grp 1 (plus nonquote)
        @ [One quote, Star (NoneOf '')''), One (Lit CHR '')'')]]"

definition name_pattern :: regex where
  \<comment> \<open>\<open>name:\s*["\']([^"\']+)["\']\<close>\<close>
  "name_pattern =
     lit ''name:'' @ [Star Space, One quote] @ grp 1 (plus nonquote) @ [One quote]"

definition found_locators :: "string \<Rightarrow> string list" where
  \<comment> \<open>the locators both loops run over: for each pattern in turn, every match of it in the
      dependencies section\<close>
  "found_locators deps_content =
     concat (map (\<lambda>pattern. findall_group1 pattern deps_content) package_patterns)"

subsection \<open>\<open>parse_package_swift\<close> (the analyzer)\<close>

record manifest_info =
  dependencies :: "string list"
  package_name :: "string option"
  has_package_swift :: bool
  error_of :: "error option"

fun add_repo_keys :: "string list \<Rightarrow> string list \<Rightarrow> error + string list" where
  \<comment> \<open>the body of the two nested loops: \<open>found_urls.add(repo_key)\<close> for every locator
      that names the hosting service and normalizes\<close>
  "add_repo_keys [] found_urls = Inr found_urls"
| "add_repo_keys (url # urls) found_urls =
     (if contains url ''github.com'' then
        (case extract_repo_info_from_url url of
           Inl e \<Rightarrow> Inl e
         | Inr repo_key \<Rightarrow>
             add_repo_keys urls
               (case repo_key of
                  None \<Rightarrow> found_urls
                | Some k \<Rightarrow> if k \<noteq> [] then set_add found_urls k else found_urls))
      else add_repo_keys urls found_urls)"

definition parse_content :: "string \<Rightarrow> error + manifest_info" where
  \<comment> \<open>the body of the \<open>try\<close> once the file has been read\<close>
  "parse_content content =
     (case (case re_search dependencies_pattern content of
              None \<Rightarrow> Inr []
            | Some m \<Rightarrow>
                (case group m 1 of
                   None \<Rightarrow> Inr []
                 | Some deps_content \<Rightarrow> add_repo_keys (found_locators deps_content) [])) of
        Inl e \<Rightarrow> Inl e
      | Inr deps \<Rightarrow>
          Inr \<lparr>dependencies = deps,
               package_name =
                 (case re_search name_pattern content of
                    None \<Rightarrow> None
                  | Some name_match \<Rightarrow> group name_match 1),
               has_package_swift = True,
               error_of = None\<rparr>)"

definition parse_failed :: "error \<Rightarrow> manifest_info" where
  \<comment> \<open>what the \<open>except\<close> branch returns\<close>
  "parse_failed e =
     \<lparr>dependencies = [], package_name = None, has_package_swift = False,
      error_of = Some e\<rparr>"

definition parse_package_swift :: "error + string \<Rightarrow> manifest_info" where
  \<comment> \<open>The argument is what opening and reading the file as UTF-8 gives: the text, or the
      exception raised.\<close>
  "parse_package_swift file =
     (case file of
        Inl e \<Rightarrow> parse_failed e
      | Inr content \<Rightarrow>
          (case parse_content content of
             Inl e \<Rightarrow> parse_failed e
           | Inr info \<Rightarrow> info))"


subsection \<open>\<open>analyze_version_constraint\<close> (main.py)\<close>

text \<open>
  The function returns a formatted description. The model returns the variant and the
  values the description is formatted from; \<open>NoConstraint\<close> stands for the final
  fixed message.
\<close>

datatype version_info =
    FromV string                 \<comment> \<open>\<open>from {1}\<close>\<close>
  | UpToNextMajorV string int    \<comment> \<open>\<open>from {version} up to next major (< {n}.0.0)\<close>\<close>
  | UpToNextMinorV string string int
                                 \<comment> \<open>\<open>from {version} up to next minor (< {parts[0]}.{n}.0)\<close>\<close>
  | ExactV string                \<comment> \<open>\<open>exact {1}\<close>\<close>
  | RangeV string string         \<comment> \<open>\<open>range {1} ... {2}\<close>\<close>
  | BranchV string               \<comment> \<open>\<open>branch: {1}\<close>\<close>
  | RevisionV string             \<comment> \<open>\<open>revision: {1[:8]}...\<close>\<close>
  | VersionV string              \<comment> \<open>\<open>version {1}\<close>\<close>
  | NoConstraint

datatype constraint_type =
    From | UpToNextMajor | UpToNextMinor | Exact | Range | ClosedRange | RangeOperator
  | Branch | Revision

definition keyword_quoted :: "string \<Rightarrow> regex" where
  \<comment> \<open>\<open>kw\s*["\']([^"\']+)["\']\<close>\<close>
  "keyword_quoted kw = lit kw @ [Star Space, One quote] @ grp 1 (plus nonquote) @ [One quote]"

definition call_from_quoted :: "string \<Rightarrow> regex" where
  \<comment> \<open>\<open>name\s*\(\s*from:\s*["\']([^"\']+)["\']\s*\)\<close>\<close>
  "call_from_quoted name =
     lit name @ [Star Space, One (Lit CHR ''(''), Star Space] @ keyword_quoted ''from:''
       @ [Star Space, One (Lit CHR '')'')]"

definition version_patterns :: "(constraint_type \<times> regex) list" where
  \<comment> \<open>the dictionary \<open>version_patterns\<close>, in the order it is written, which is the order
      the loop visits it\<close>
  "version_patterns =
     [(From, keyword_quoted ''from:''),
      (UpToNextMajor, call_from_quoted ''.upToNextMajor''),
      (UpToNextMinor, call_from_quoted ''.upToNextMinor''),
      (Exact, lit ''.exact'' @ [Star Space, One (Lit CHR ''(''), Star Space, One quote]
                @ grp 1 (plus nonquote) @ [One quote, Star Space, One (Lit CHR '')'')]),
      (Range, [One quote] @ grp 1 (plus nonquote) @ [One quote] @ plus_lazy Dot
                @ [One quote] @ grp 2 (plus nonquote) @ [One quote]),
      (ClosedRange, [One quote] @ grp 1 (plus nonquote) @ [One quote] @ lit ''...''
                @ [One quote, Star Space] @ grp 2 (plus nonquote) @ [One quote]),
      (RangeOperator, [One quote] @ grp 1 (plus nonquote)
                @ [One quote, Star Space, One (Lit CHR ''.''), One (Lit CHR ''.''),
                   Opt (Lit CHR ''.''), Star Space, One quote]
                @ grp 2 (plus nonquote) @ [One quote]),
      (Branch, keyword_quoted ''branch:''),
      (Revision, keyword_quoted ''revision:'')]"

definition bare_version_pattern :: regex where
  \<comment> \<open>\<open>["\'](\d+\.\d+\.\d+[^"\']*)["\']\<close>\<close>
  "bare_version_pattern =
     [One quote]
       @ grp 1 (plus Digit @ [One (Lit CHR ''.'')] @ plus Digit @ [One (Lit CHR ''.'')]
                @ plus Digit @ [Star nonquote])
       @ [One quote]"

text \<open>
  \<open>int(s)\<close> on a string: surrounding whitespace, an optional sign, and decimal digits
  that single underscores may separate; anything else raises \<open>ValueError\<close>.
\<close>

fun digit_groups_ok :: "string \<Rightarrow> bool" where
  "digit_groups_ok [] = False"
| "digit_groups_ok [x] = is_digit x"
| "digit_groups_ok (x # y # zs) =
     (is_digit x \<and> (if y = CHR ''_'' then digit_groups_ok zs else digit_groups_ok (y # zs)))"

definition digit_value :: "char \<Rightarrow> int" where
  "digit_value x = int (of_char x) - 48"

definition py_int :: "string \<Rightarrow> error + int" where
  "py_int s =
     (let t = rev (dropWhile is_space (rev (dropWhile is_space s)));
          neg = (t \<noteq> [] \<and> hd t = CHR ''-'');
          body = (if t \<noteq> [] \<and> (hd t = CHR ''-'' \<or> hd t = CHR ''+'') then tl t else t)
      in if digit_groups_ok body
         then (let n = fold (\<lambda>x acc. 10 * acc + digit_value x) (filter is_digit body) 0
               in Inr (if neg then - n else n))
         else Inl ValueError)"

definition group_or_empty :: "rematch \<Rightarrow> nat \<Rightarrow> string" where
  \<comment> \<open>\<open>m.group(n)\<close> where the pattern makes group n take part in every match\<close>
  "group_or_empty m n = (case group m n of None \<Rightarrow> [] | Some t \<Rightarrow> t)"

definition constraint_result :: "constraint_type \<Rightarrow> rematch \<Rightarrow> (error + version_info) option" where
  \<comment> \<open>the \<open>if/elif\<close> chain run when a pattern has matched: \<open>Some\<close> is a \<open>return\<close> (or the
      exception raised), \<open>None\<close> lets the loop go on to the next pattern\<close>
  "constraint_result constraint_type m =
     (case constraint_type of
        From \<Rightarrow> Some (Inr (FromV (group_or_empty m 1)))
      | UpToNextMajor \<Rightarrow>
          (let version = group_or_empty m 1 in
           case py_int (split_char CHR ''.'' version ! 0) of
             Inl e \<Rightarrow> Some (Inl e)
           | Inr major \<Rightarrow> Some (Inr (UpToNextMajorV version (major + 1))))
      | UpToNextMinor \<Rightarrow>
          (let version = group_or_empty m 1; parts = split_char CHR ''.'' version in
           if length parts < 2 then Some (Inl IndexError)
           else case py_int (parts ! 1) of
                  Inl e \<Rightarrow> Some (Inl e)
                | Inr minor \<Rightarrow> Some (Inr (UpToNextMinorV version (parts ! 0) (minor + 1))))
      | Exact \<Rightarrow> Some (Inr (ExactV (group_or_empty m 1)))
      | Range \<Rightarrow>
          if lastindex m \<ge> 2 then Some (Inr (RangeV (group_or_empty m 1) (group_or_empty m 2)))
          else None
      | ClosedRange \<Rightarrow>
          if lastindex m \<ge> 2 then Some (Inr (RangeV (group_or_empty m 1) (group_or_empty m 2)))
          else None
      | RangeOperator \<Rightarrow>
          if lastindex m \<ge> 2 then Some (Inr (RangeV (group_or_empty m 1) (group_or_empty m 2)))
          else None
      | Branch \<Rightarrow> Some (Inr (BranchV (group_or_empty m 1)))
      | Revision \<Rightarrow> Some (Inr (RevisionV (take 8 (group_or_empty m 1)))))"

fun try_patterns :: "(constraint_type \<times> regex) list \<Rightarrow> string \<Rightarrow> (error + version_info) option" where
  \<comment> \<open>the \<open>for\<close> loop over the patterns\<close>
  "try_patterns [] package_declaration = None"
| "try_patterns ((constraint_type, pattern) # ps) package_declaration =
     (case re_search pattern package_declaration of
        None \<Rightarrow> try_patterns ps package_declaration
      | Some m \<Rightarrow>
          (case constraint_result constraint_type m of
             Some r \<Rightarrow> Some r
           | None \<Rightarrow> try_patterns ps package_declaration))"

definition analyze_version_constraint :: "string \<Rightarrow> error + version_info" where
  "analyze_version_constraint package_declaration =
     (case try_patterns version_patterns package_declaration of
        Some r \<Rightarrow> r
      | None \<Rightarrow>
          (case re_search bare_version_pattern package_declaration of
             Some version_match \<Rightarrow> Inr (VersionV (group_or_empty version_match 1))
           | None \<Rightarrow> Inr NoConstraint))"

subsection \<open>\<open>extract_dependencies_from_content\<close> (main.py)\<close>

definition full_package_pattern :: regex where
  \<comment> \<open>\<open>\.package\s*\([^)]+\)\<close>\<close>
  "full_package_pattern =
     lit ''.package'' @ [Star Space, One (Lit CHR ''('')] @ plus (NoneOf '')'')
       @ [One (Lit CHR '')'')]"

definition url_alternatives :: "regex list" where
  \<comment> \<open>\<open>url:\s*["\']([^"\']+)["\']|["\']([^"\']+)["\']\<close>\<close>
  "url_alternatives =
     [keyword_quoted ''url:'', [One quote] @ grp 2 (plus nonquote) @ [One quote]]"

fun add_urls :: "string list \<Rightarrow> string list \<Rightarrow> string list" where
  \<comment> \<open>\<open>found_urls.add(url)\<close> for every locator that names the hosting service\<close>
  "add_urls [] found_urls = found_urls"
| "add_urls (url # urls) found_urls =
     add_urls urls (if contains url ''github.com'' then set_add found_urls url else found_urls)"

fun report_versions :: "string list \<Rightarrow> error + (string \<times> version_info) list" where
  \<comment> \<open>the loop that prints each declaration's locator and version constraint; the result
      is what it prints, or the exception that ends it\<close>
  "report_versions [] = Inr []"
| "report_versions (decl # decls) =
     (case search_alts url_alternatives decl of
        None \<Rightarrow> report_versions decls
      | Some url_match \<Rightarrow>
          (let url = (if truthy (group url_match 1) then group_or_empty url_match 1
                      else group_or_empty url_match 2) in
           if contains url ''github.com'' then
             (case analyze_version_constraint decl of
                Inl e \<Rightarrow> Inl e
              | Inr version_info \<Rightarrow>
                  (case report_versions decls of
                     Inl e \<Rightarrow> Inl e
                   | Inr out \<Rightarrow> Inr ((url, version_info) # out)))
           else report_versions decls))"

definition extract_dependencies_from_content :: "string \<Rightarrow> error + string list" where
  \<comment> \<open>The list made from the set \<open>found_urls\<close> is given in insertion order; Python leaves
      the order open.\<close>
  "extract_dependencies_from_content content =
     (case re_search dependencies_pattern content of
        None \<Rightarrow> Inr []
      | Some m \<Rightarrow>
          (let deps_content = group_or_empty m 1;
               dependencies = add_urls (found_locators deps_content) []
           in if dependencies \<noteq> [] then
                (case report_versions (findall_whole full_package_pattern deps_content) of
                   Inl e \<Rightarrow> Inl e
                 | Inr printed \<Rightarrow> Inr dependencies)
              else Inr dependencies))"


section \<open>The graph model and the analyzer\<close>

record statistics =
  total_nodes :: nat
  total_edges :: nat
  root_packages :: nat
  leaf_packages :: nat
  max_depth :: nat
  circular_dependencies :: "string list list"

text \<open>
  The state of a \<open>DependencyGraphAnalyzer\<close>. \<open>graph\<close> and \<open>reverse_graph\<close> are
  \<open>defaultdict(list)\<close>, \<open>nodes\<close> is a \<open>set\<close>.
\<close>

record analyzer =
  graph :: "string list dict"
  reverse_graph :: "string list dict"
  nodes :: "string list"
  package_info :: "manifest_info dict"
  stats :: statistics

definition new_analyzer :: analyzer where
  \<comment> \<open>\<open>__init__\<close>\<close>
  "new_analyzer =
     \<lparr>graph = [], reverse_graph = [], nodes = [], package_info = [],
      stats = \<lparr>total_nodes = 0, total_edges = 0, root_packages = 0, leaf_packages = 0,
               max_depth = 0, circular_dependencies = []\<rparr>\<rparr>"


subsection \<open>\<open>scan_directory_structure\<close>\<close>

text \<open>
  The directory tree the scan reads. A package directory has a name, is a directory or
  not, and has no \<open>Package.swift\<close> (\<open>None\<close>) or one whose reading gives a text or raises.
  An entry of the base directory has a name, is a directory or not, and lists package
  directories. \<open>None\<close> for the whole tree: the base directory does not exist.
\<close>

datatype package_dir = PackageDir string bool "(error + string) option"
datatype root_entry = RootEntry string bool "package_dir list"

fun add_dependencies :: "string \<Rightarrow> string list \<Rightarrow> analyzer \<Rightarrow> analyzer" where
  \<comment> \<open>\<open>for dep in package_info['dependencies']\<close>\<close>
  "add_dependencies repo_key [] a = a"
| "add_dependencies repo_key (dep # deps) a =
     add_dependencies repo_key deps
       (a\<lparr>graph := dd_append (graph a) repo_key dep,
          reverse_graph := dd_append (reverse_graph a) dep repo_key,
          nodes := set_add (nodes a) dep\<rparr>)"

fun scan_package :: "package_dir \<Rightarrow> analyzer \<Rightarrow> analyzer" where
  "scan_package (PackageDir dir_name is_dir package_swift) a =
     (if is_dir then
        (let repo_key = replace_char CHR ''_'' CHR ''/'' dir_name in
         case package_swift of
           None \<Rightarrow> a
         | Some file \<Rightarrow>
             (let info = parse_package_swift file in
              add_dependencies repo_key (dependencies info)
                (a\<lparr>package_info := dict_set (package_info a) repo_key info,
                   nodes := set_add (nodes a) repo_key\<rparr>)))
      else a)"

fun scan_root :: "root_entry \<Rightarrow> analyzer \<Rightarrow> analyzer" where
  "scan_root (RootEntry root_dir is_dir listing) a =
     (if is_dir \<and> \<not> startswith root_dir ''.'' then fold scan_package listing a else a)"

definition scan_directory_structure :: "root_entry list option \<Rightarrow> analyzer \<Rightarrow> analyzer" where
  "scan_directory_structure base_dir a =
     (case base_dir of None \<Rightarrow> a | Some entries \<Rightarrow> fold scan_root entries a)"


subsection \<open>\<open>calculate_depth_from_node\<close>\<close>

text \<open>
  The \<open>while queue\<close> loop. \<open>self.graph[node]\<close> is an access to a \<open>defaultdict\<close>, so the
  graph is part of the loop's state. The result is the maximum depth and the graph
  after the loop.
\<close>

definition graph_universe :: "string list dict \<Rightarrow> string set" where
  \<comment> \<open>every key and every target of the dictionary\<close>
  "graph_universe g = set (map fst g) \<union> set (concat (map snd g))"

lemma map_of_dict_set: "map_of (dict_set d k v) = (map_of d)(k \<mapsto> v)"
  by (induction d k v rule: dict_set.induct) auto

lemma keys_dict_set: "set (map fst (dict_set d k v)) = insert k (set (map fst d))"
  by (induction d k v rule: dict_set.induct) auto

lemma targets_dict_set_empty:
  "set (concat (map snd (dict_set g k []))) \<subseteq> set (concat (map snd g))"
  by (induction g k "[] :: 'a list" rule: dict_set.induct) auto

lemma graph_universe_dict_set_empty:
  "graph_universe (dict_set g k []) \<subseteq> insert k (graph_universe g)"
  unfolding graph_universe_def using keys_dict_set [of g k "[]"] targets_dict_set_empty [of g k]
  by blast

lemma dd_getitem_universe:
  "graph_universe (snd (dd_getitem g k)) \<subseteq> insert k (graph_universe g)"
  using graph_universe_dict_set_empty [of g k]
  by (auto simp: dd_getitem_def split: option.splits)

lemma dd_getitem_targets: "set (fst (dd_getitem g k)) \<subseteq> graph_universe g"
  by (force simp: dd_getitem_def graph_universe_def split: option.splits dest!: map_of_SomeD)

function bfs_loop :: "string list dict \<Rightarrow> string set \<Rightarrow> (string \<times> nat) list \<Rightarrow> nat
                      \<Rightarrow> nat \<times> string list dict" where
  "bfs_loop g vis [] deepest = (deepest, g)"
| "bfs_loop g vis ((node, depth) # queue) deepest =
     (if node \<in> vis then bfs_loop g vis queue deepest
      else
        bfs_loop (snd (dd_getitem g node)) (insert node vis)
          (queue @ map (\<lambda>dependency. (dependency, depth + 1))
                     (filter (\<lambda>dependency. dependency \<notin> insert node vis)
                        (fst (dd_getitem g node))))
          (max deepest depth))"
  by pat_completeness auto
termination
proof (relation "measures [\<lambda>(g, vis, queue, deepest).
                              card ((graph_universe g \<union> fst ` set queue) - vis),
                           \<lambda>(g, vis, queue, deepest). length queue]", goal_cases)
  case 1
  show ?case by simp
next
  case (2 g vis node depth queue deepest)
  have "finite (graph_universe g \<union> fst ` set ((node, depth) # queue) - vis)"
    by (simp add: graph_universe_def)
  moreover have "graph_universe g \<union> fst ` set queue - vis
                   \<subseteq> graph_universe g \<union> fst ` set ((node, depth) # queue) - vis"
    by auto
  ultimately have "card (graph_universe g \<union> fst ` set queue - vis)
                     \<le> card (graph_universe g \<union> fst ` set ((node, depth) # queue) - vis)"
    by (rule card_mono)
  then show ?case by auto
next
  case (3 g vis node depth queue deepest)
  let ?old = "graph_universe g \<union> fst ` set ((node, depth) # queue) - vis"
  let ?new = "graph_universe (snd (dd_getitem g node))
                \<union> fst ` set (queue @ map (\<lambda>dependency. (dependency, depth + 1))
                     (filter (\<lambda>dependency. dependency \<notin> insert node vis)
                        (fst (dd_getitem g node))))
                - insert node vis"
  have fin: "finite ?old" by (simp add: graph_universe_def)
  have "node \<in> ?old" using 3 by simp
  moreover have "node \<notin> ?new" by simp
  moreover have "?new \<subseteq> ?old"
    using dd_getitem_universe [of g node] dd_getitem_targets [of g node] by auto
  ultimately have "?new \<subset> ?old" by blast
  with fin have "card ?new < card ?old" by (rule psubset_card_mono)
  then show ?case by simp
qed

definition calculate_depth_from_node :: "string list dict \<Rightarrow> string \<Rightarrow> nat \<times> string list dict" where
  "calculate_depth_from_node g start_node =
     (if map_of g start_node = None then (0, g)
      else bfs_loop g {} [(start_node, 0)] 0)"

subsection \<open>\<open>detect_circular_dependencies\<close>\<close>

text \<open>
  The nested function \<open>dfs\<close> with the three variables it shares with its enclosing
  function. The first argument bounds the nesting of calls, as the interpreter's
  recursion limit does: a call that would exceed it raises \<open>RecursionError\<close>, which
  nothing here catches.
\<close>

record dfs_state =
  visited :: "string set"
  rec_stack :: "string set"
  cycles :: "string list list"

fun dfs :: "nat \<Rightarrow> string list dict \<Rightarrow> string \<Rightarrow> string list \<Rightarrow> dfs_state
              \<Rightarrow> error + dfs_state"
and dfs_neighbors :: "nat \<Rightarrow> string list dict \<Rightarrow> string list \<Rightarrow> string list \<Rightarrow> dfs_state
              \<Rightarrow> error + dfs_state"
where
  "dfs 0 g node path st = Inl RecursionError"
| "dfs (Suc lim) g node path st =
     (if node \<in> rec_stack st then
        (case list_index path node of
           Inl e \<Rightarrow> Inl e
         | Inr cycle_start \<Rightarrow>
             Inr (st\<lparr>cycles := cycles st @ [drop cycle_start path @ [node]]\<rparr>))
      else if node \<in> visited st then Inr st
      else
        (case dfs_neighbors lim g (dict_get g node []) (path @ [node])
                (st\<lparr>visited := insert node (visited st),
                    rec_stack := insert node (rec_stack st)\<rparr>) of
           Inl e \<Rightarrow> Inl e
         | Inr st' \<Rightarrow>
             if node \<in> rec_stack st' then Inr (st'\<lparr>rec_stack := rec_stack st' - {node}\<rparr>)
             else Inl KeyError))"
| "dfs_neighbors lim g [] path st = Inr st"
| "dfs_neighbors lim g (neighbor # others) path st =
     (case dfs lim g neighbor path st of
        Inl e \<Rightarrow> Inl e
      | Inr st' \<Rightarrow> dfs_neighbors lim g others path st')"

fun dfs_from_each :: "nat \<Rightarrow> string list dict \<Rightarrow> string list \<Rightarrow> dfs_state \<Rightarrow> error + dfs_state" where
  \<comment> \<open>\<open>for node in self.nodes: if node not in visited: dfs(node, [])\<close>\<close>
  "dfs_from_each lim g [] st = Inr st"
| "dfs_from_each lim g (node # others) st =
     (if node \<notin> visited st then
        (case dfs lim g node [] st of
           Inl e \<Rightarrow> Inl e
         | Inr st' \<Rightarrow> dfs_from_each lim g others st')
      else dfs_from_each lim g others st)"

definition detect_circular_dependencies :: "nat \<Rightarrow> string list dict \<Rightarrow> string list
                                              \<Rightarrow> error + string list list" where
  "detect_circular_dependencies lim g ns =
     (case dfs_from_each lim g ns \<lparr>visited = {}, rec_stack = {}, cycles = []\<rparr> of
        Inl e \<Rightarrow> Inl e
      | Inr st \<Rightarrow> Inr (cycles st))"

subsection \<open>\<open>calculate_graph_metrics\<close>\<close>

fun select_empty :: "string list dict \<Rightarrow> string list \<Rightarrow> string list \<times> string list dict" where
  \<comment> \<open>\<open>[node for node in self.nodes if len(d[node]) == 0]\<close> on a \<open>defaultdict\<close> \<open>d\<close>:
      the selected nodes and the dictionary after the accesses\<close>
  "select_empty d [] = ([], d)"
| "select_empty d (node # others) =
     (let (v, d1) = dd_getitem d node;
          (selected, d2) = select_empty d1 others
      in (if length v = 0 then node # selected else selected, d2))"

fun depth_over_roots :: "string list dict \<Rightarrow> string list \<Rightarrow> nat \<Rightarrow> nat \<times> string list dict" where
  \<comment> \<open>\<open>for root in root_packages: max_depth = max(max_depth, depth)\<close>\<close>
  "depth_over_roots g [] deepest = (deepest, g)"
| "depth_over_roots g (root # others) deepest =
     (let (depth, g1) = calculate_depth_from_node g root
      in depth_over_roots g1 others (max deepest depth))"

definition calculate_graph_metrics :: "nat \<Rightarrow> analyzer \<Rightarrow> error + analyzer" where
  \<comment> \<open>\<open>lim\<close> is the recursion limit the cycle search runs under.\<close>
  "calculate_graph_metrics lim a =
     (let (roots, rg1) = select_empty (reverse_graph a) (nodes a);
          (leaves, g1) = select_empty (graph a) (nodes a);
          (deepest, g2) = depth_over_roots g1 roots 0
      in case detect_circular_dependencies lim g2 (nodes a) of
           Inl e \<Rightarrow> Inl e
         | Inr found \<Rightarrow>
             Inr (a\<lparr>graph := g2, reverse_graph := rg1,
                    stats := \<lparr>total_nodes = length (nodes a),
                              total_edges = sum_list (map (\<lambda>(k, deps). length deps) (graph a)),
                              root_packages = length roots,
                              leaf_packages = length leaves,
                              max_depth = deepest,
                              circular_dependencies = found\<rparr>\<rparr>))"


section \<open>The resolver (main.py)\<close>

text \<open>
  What the hosting service answers for one repository key, from \<open>g.get_repo\<close> to the
  write of the manifest: an exception anywhere on the way, no \<open>Package.swift\<close> on any
  branch tried, or the decoded manifest.
\<close>

datatype fetch_result = Raises | NoManifest | Manifest string

text \<open>
  The module's global state. \<open>fetched\<close> is not a variable of the program: it records,
  in order, the keys \<open>g.get_repo\<close> was called with.
\<close>

record resolver =
  processed_repos :: "string set"
  failed_repos :: "string set"
  dependency_graph :: "string list dict"
  successful_downloads :: nat
  failed_downloads :: nat
  dependencies_found :: nat
  fetched :: "string list"

definition new_resolver :: resolver where
  "new_resolver =
     \<lparr>processed_repos = {}, failed_repos = {}, dependency_graph = [],
      successful_downloads = 0, failed_downloads = 0, dependencies_found = 0,
      fetched = []\<rparr>"

definition repo_key_of :: "string option \<times> string option \<Rightarrow> string option" where
  \<comment> \<open>\<open>f"{owner}/{repo}"\<close> when \<open>owner and repo\<close>, else nothing\<close>
  "repo_key_of p =
     (case p of
        (Some owner, Some repo) \<Rightarrow>
          if owner \<noteq> [] \<and> repo \<noteq> [] then Some (owner @ ''/'' @ repo) else None
      | _ \<Rightarrow> None)"

definition on_exception :: "string \<Rightarrow> resolver \<Rightarrow> resolver" where
  \<comment> \<open>the \<open>except\<close> branch once \<open>repo_key\<close> is bound\<close>
  "on_exception repo_key st =
     st\<lparr>failed_repos := insert repo_key (failed_repos st),
        failed_downloads := failed_downloads st + 1\<rparr>"

definition note_fetch :: "string \<Rightarrow> resolver \<Rightarrow> resolver" where
  \<comment> \<open>\<open>g.get_repo(repo_key)\<close> is called\<close>
  "note_fetch repo_key st = st\<lparr>fetched := fetched st @ [repo_key]\<rparr>"

definition mark_failed :: "string \<Rightarrow> resolver \<Rightarrow> resolver" where
  \<comment> \<open>\<open>failed_repos.add(repo_key)\<close> when no branch has a manifest\<close>
  "mark_failed repo_key st = st\<lparr>failed_repos := insert repo_key (failed_repos st)\<rparr>"

definition mark_processed :: "string \<Rightarrow> resolver \<Rightarrow> resolver" where
  \<comment> \<open>\<open>processed_repos.add(repo_key); stats['successful_downloads'] += 1\<close>\<close>
  "mark_processed repo_key st =
     st\<lparr>processed_repos := insert repo_key (processed_repos st),
        successful_downloads := successful_downloads st + 1\<rparr>"

definition begin_dependencies :: "string \<Rightarrow> string list \<Rightarrow> resolver \<Rightarrow> resolver" where
  \<comment> \<open>\<open>stats['dependencies_found'] += len(dependencies)\<close> and
      \<open>if repo_key not in dependency_graph: dependency_graph[repo_key] = []\<close>\<close>
  "begin_dependencies repo_key deps st =
     st\<lparr>dependencies_found := dependencies_found st + length deps,
        dependency_graph :=
          (if map_of (dependency_graph st) repo_key = None
           then dict_set (dependency_graph st) repo_key []
           else dependency_graph st)\<rparr>"

definition add_edge :: "string \<Rightarrow> string list \<Rightarrow> string \<Rightarrow> resolver \<Rightarrow> resolver" where
  \<comment> \<open>\<open>dependency_graph[repo_key].append(dep_key)\<close>, the list found under the key
      being \<open>targets\<close>\<close>
  "add_edge repo_key targets dep_key st =
     st\<lparr>dependency_graph := dict_set (dependency_graph st) repo_key (targets @ [dep_key])\<rparr>"

text \<open>
  \<open>download_package_swift\<close> and the loop over the dependencies inside it. The first
  argument bounds the nesting of calls; \<open>None\<close> means that the call did not return within
  it. The loop returns the exception that ended it, if one did.
\<close>

fun download_package_swift ::
      "nat \<Rightarrow> (string \<Rightarrow> fetch_result) \<Rightarrow> string \<Rightarrow> string \<Rightarrow> nat \<Rightarrow> resolver
         \<Rightarrow> (bool \<times> resolver) option"
and resolve_dependencies ::
      "nat \<Rightarrow> (string \<Rightarrow> fetch_result) \<Rightarrow> string \<Rightarrow> string list \<Rightarrow> string \<Rightarrow> nat \<Rightarrow> resolver
         \<Rightarrow> (error option \<times> resolver) option"
where
  "download_package_swift 0 fetch github_url root_repo_key depth st = None"
| "download_package_swift (Suc fuel) fetch github_url root_repo_key depth st =
     (case extract_repo_info github_url of
        Inl e \<Rightarrow> Some (False, st\<lparr>failed_downloads := failed_downloads st + 1\<rparr>)
      | Inr owner_repo \<Rightarrow>
          (case repo_key_of owner_repo of
             None \<Rightarrow> Some (False, st)
           | Some repo_key \<Rightarrow>
               if repo_key \<in> processed_repos st \<or> repo_key \<in> failed_repos st
               then Some (True, st)
               else
                 (case fetch repo_key of
                    Raises \<Rightarrow> Some (False, on_exception repo_key (note_fetch repo_key st))
                  | NoManifest \<Rightarrow> Some (False, mark_failed repo_key (note_fetch repo_key st))
                  | Manifest content \<Rightarrow>
                      (case extract_dependencies_from_content content of
                         Inl e \<Rightarrow>
                           Some (False, on_exception repo_key
                                          (mark_processed repo_key (note_fetch repo_key st)))
                       | Inr deps \<Rightarrow>
                           if deps \<noteq> [] then
                             (case resolve_dependencies fuel fetch repo_key deps
                                     root_repo_key depth
                                     (begin_dependencies repo_key deps
                                        (mark_processed repo_key (note_fetch repo_key st))) of
                                None \<Rightarrow> None
                              | Some (Some e, st3) \<Rightarrow> Some (False, on_exception repo_key st3)
                              | Some (None, st3) \<Rightarrow> Some (True, st3))
                           else Some (True, mark_processed repo_key
                                              (note_fetch repo_key st))))))"
| "resolve_dependencies fuel fetch repo_key [] root_repo_key depth st = Some (None, st)"
| "resolve_dependencies fuel fetch repo_key (dep_url # others) root_repo_key depth st =
     (case extract_repo_info dep_url of
        Inl e \<Rightarrow> Some (Some e, st)
      | Inr dep_owner_repo \<Rightarrow>
          (case repo_key_of dep_owner_repo of
             None \<Rightarrow> resolve_dependencies fuel fetch repo_key others root_repo_key depth st
           | Some dep_key \<Rightarrow>
               (case map_of (dependency_graph st) repo_key of
                  None \<Rightarrow> Some (Some KeyError, st)
                | Some targets \<Rightarrow>
                    (case download_package_swift fuel fetch dep_url root_repo_key (depth + 1)
                            (add_edge repo_key targets dep_key st) of
                       None \<Rightarrow> None
                     | Some (ok, st') \<Rightarrow>
                         resolve_dependencies fuel fetch repo_key others
                           root_repo_key depth st'))))"

fun process_all_repositories ::
      "nat \<Rightarrow> (string \<Rightarrow> fetch_result) \<Rightarrow> string list \<Rightarrow> resolver \<Rightarrow> (error + resolver) option" where
  \<comment> \<open>the loop over the rows of the seed list; the argument is the column of locators.
      \<open>extract_repo_info\<close> is called outside any \<open>try\<close> here.\<close>
  "process_all_repositories fuel fetch [] st = Some (Inr st)"
| "process_all_repositories fuel fetch (github_url # others) st =
     (case extract_repo_info github_url of
        Inl e \<Rightarrow> Some (Inl e)
      | Inr owner_repo \<Rightarrow>
          (case repo_key_of owner_repo of
             None \<Rightarrow> process_all_repositories fuel fetch others st
           | Some root_repo_key \<Rightarrow>
               (case download_package_swift fuel fetch github_url root_repo_key 0 st of
                  None \<Rightarrow> None
                | Some (ok, st') \<Rightarrow> process_all_repositories fuel fetch others st')))"


section \<open>Notions the properties are stated with\<close>

definition succs :: "string list dict \<Rightarrow> string \<Rightarrow> string set" where
  \<comment> \<open>the targets of a node's out-edges\<close>
  "succs g n = set (dict_get g n [])"

definition walk :: "string list dict \<Rightarrow> string list \<Rightarrow> bool" where
  \<comment> \<open>every two consecutive elements are joined by an edge\<close>
  "walk g p = successively (\<lambda>x y. y \<in> succs g x) p"

definition closed_walk :: "string list dict \<Rightarrow> string list \<Rightarrow> bool" where
  "closed_walk g c = (2 \<le> length c \<and> hd c = last c \<and> walk g c)"

definition padded :: "string list dict \<Rightarrow> string list dict \<Rightarrow> bool" where
  \<comment> \<open>the second dictionary is the first one followed by empty lists under keys the
      first one does not have\<close>
  "padded d d' = (\<exists>ks. d' = d @ map (\<lambda>k. (k, [])) ks \<and> (\<forall>k \<in> set ks. map_of d k = None))"

definition edge_set :: "string list dict \<Rightarrow> (string \<times> string) set" where
  \<comment> \<open>the pairs (key, element of the key's list)\<close>
  "edge_set d = {(s, t). \<exists>ts. (s, ts) \<in> set d \<and> t \<in> set ts}"

definition no_dangling :: "analyzer \<Rightarrow> bool" where
  \<comment> \<open>both ends of every entry of the forward and of the reverse adjacency are nodes\<close>
  "no_dangling a =
     (\<forall>(s, t) \<in> edge_set (graph a) \<union> edge_set (reverse_graph a).
        s \<in> set (nodes a) \<and> t \<in> set (nodes a))"

definition key_of :: "string \<Rightarrow> string option" where
  \<comment> \<open>the identifier the resolver derives from a locator, if it derives one\<close>
  "key_of url = (case extract_repo_info url of Inl e \<Rightarrow> None | Inr p \<Rightarrow> repo_key_of p)"

definition attempted :: "resolver \<Rightarrow> string set" where
  \<comment> \<open>the visited and the failed identifiers\<close>
  "attempted st = processed_repos st \<union> failed_repos st"

definition fetched_once :: "resolver \<Rightarrow> bool" where
  \<comment> \<open>no identifier was fetched twice, and every fetched one is visited or failed\<close>
  "fetched_once st = (distinct (fetched st) \<and> set (fetched st) \<subseteq> attempted st)"

definition edges_attempted :: "string set \<Rightarrow> string set \<Rightarrow> resolver \<Rightarrow> bool" where
  \<comment> \<open>every edge leaves an attempted identifier (or one of \<open>S\<close>) and enters an
      attempted one (or one of the pending identifiers \<open>X\<close>)\<close>
  "edges_attempted S X st =
     (\<forall>(s, t) \<in> edge_set (dependency_graph st).
        (s \<in> attempted st \<or> s \<in> S) \<and> (t \<in> attempted st \<or> t \<in> X))"


definition resolver_post :: "string set \<Rightarrow> string set \<Rightarrow> resolver \<Rightarrow> resolver \<Rightarrow> bool" where
  \<comment> \<open>what a call leaves behind: the log and the edges in order, the two sets grown\<close>
  "resolver_post S X st st' =
     (fetched_once st' \<and> edges_attempted S X st' \<and>
      processed_repos st \<subseteq> processed_repos st' \<and> failed_repos st \<subseteq> failed_repos st')"

definition section_locators :: "string \<Rightarrow> string list" where
  \<comment> \<open>every locator the two declaration patterns find in the dependencies section, in
      the order the loops meet them, repetitions included\<close>
  "section_locators content =
     (case re_search dependencies_pattern content of
        None \<Rightarrow> []
      | Some m \<Rightarrow> found_locators (group_or_empty m 1))"

fun reach_in :: "(string \<Rightarrow> string set) \<Rightarrow> string \<Rightarrow> nat \<Rightarrow> string set" where
  \<comment> \<open>the nodes at the end of a walk of exactly n edges from r\<close>
  "reach_in E r 0 = {r}"
| "reach_in E r (Suc n) = (\<Union>v \<in> reach_in E r n. E v)"

definition reachable :: "(string \<Rightarrow> string set) \<Rightarrow> string \<Rightarrow> string set" where
  "reachable E r = {v. \<exists>n. v \<in> reach_in E r n}"

definition hops :: "(string \<Rightarrow> string set) \<Rightarrow> string \<Rightarrow> string \<Rightarrow> nat" where
  \<comment> \<open>the number of edges of a shortest walk from r to v\<close>
  "hops E r v = (LEAST n. v \<in> reach_in E r n)"

definition root_nodes :: "analyzer \<Rightarrow> string list" where
  \<comment> \<open>the nodes without in-edges, in the order the node set is iterated\<close>
  "root_nodes a = filter (\<lambda>n. dict_get (reverse_graph a) n [] = []) (nodes a)"

definition bfs_inv :: "(string \<Rightarrow> string set) \<Rightarrow> string \<Rightarrow> string set \<Rightarrow> (string \<times> nat) list \<Rightarrow> nat \<Rightarrow> bool" where
  \<comment> \<open>what holds at the head of the breadth-first loop started at r\<close>
  "bfs_inv E r vis queue deepest =
     (finite vis \<and> vis \<subseteq> reachable E r
      \<and> sorted (map snd queue)
      \<and> (queue \<noteq> [] \<longrightarrow> snd (last queue) \<le> Suc (snd (hd queue)))
      \<and> (\<forall>(v, k) \<in> set queue. v \<in> reach_in E r k)
      \<and> (\<forall>u \<in> vis. \<forall>w \<in> E u. w \<notin> vis \<longrightarrow> (w, Suc (hops E r u)) \<in> set queue)
      \<and> (r \<in> vis \<or> (r, 0) \<in> set queue)
      \<and> deepest = Max (insert 0 (hops E r ` vis)))"

definition eccentricity :: "(string \<Rightarrow> string set) \<Rightarrow> string \<Rightarrow> nat" where
  \<comment> \<open>the greatest shortest distance from r to a node reachable from r\<close>
  "eccentricity E r = Max (insert 0 (hops E r ` reachable E r))"


section \<open>Concrete inputs\<close>

definition leaf_example :: analyzer where
  \<comment> \<open>the graph of one package \<open>o/a\<close> that declares \<open>o/b\<close>\<close>
  "leaf_example = new_analyzer\<lparr>graph := [(''o/a'', [''o/b''])],
                                reverse_graph := [(''o/b'', [''o/a''])],
                                nodes := [''o/a'', ''o/b'']\<rparr>"


definition qq :: "string \<Rightarrow> string" where
  \<comment> \<open>the text between double quotes\<close>
  "qq s = [dq] @ s @ [dq]"

definition two_spellings_manifest :: string where
  \<comment> \<open>one manifest declaring \<open>foo/bar\<close> twice, with and without the \<open>.git\<close> suffix\<close>
  "two_spellings_manifest =
     ''dependencies: [.package(url: '' @ qq ''https://github.com/foo/bar'' @ '', from: ''
       @ qq ''1.0.0'' @ ''), .package(url: '' @ qq ''https://github.com/foo/bar.git''
       @ '', from: '' @ qq ''1.0.0'' @ '')]''"

definition up_to_next_major_decl :: string where
  "up_to_next_major_decl =
     ''.package(url: '' @ qq ''https://github.com/a/b'' @ '', .upToNextMajor(from: ''
       @ qq ''1.0.0'' @ ''))''"

definition two_spellings_tree :: "root_entry list option" where
  \<comment> \<open>a stored tree holding that manifest for the package \<open>o/r\<close>\<close>
  "two_spellings_tree =
     Some [RootEntry ''o_r'' True [PackageDir ''o_r'' True (Some (Inr two_spellings_manifest))]]"









section \<open>The cycle search\<close>

lemma list_index_mem:
  "x \<in> set xs \<Longrightarrow>
     \<exists>i. list_index xs x = Inr i \<and> i < length xs \<and> xs ! i = x \<and> x \<notin> set (take i xs)"
proof (induction xs)
  case Nil
  then show ?case by simp
next
  case (Cons y ys)
  show ?case
  proof (cases "y = x")
    case True
    then show ?thesis by simp
  next
    case False
    with Cons.prems have "x \<in> set ys" by simp
    from Cons.IH [OF this] obtain i where
      "list_index ys x = Inr i" "i < length ys" "ys ! i = x" "x \<notin> set (take i ys)" by blast
    with False show ?thesis by simp
  qed
qed

lemma dfs_rec_stack:
  shows "dfs lim g node path st = Inr st' \<Longrightarrow> rec_stack st' = rec_stack st"
    and "dfs_neighbors lim g ns path st = Inr st' \<Longrightarrow> rec_stack st' = rec_stack st"
proof (induction lim g node path st and lim g ns path st arbitrary: st' and st'
       rule: dfs_dfs_neighbors.induct)
  case (1 g node path st)
  then show ?case by simp
next
  case (2 lim g node path st)
  show ?case
  proof (cases "node \<in> rec_stack st")
    case True
    with "2.prems" show ?thesis by (auto split: sum.splits)
  next
    case nrs: False
    show ?thesis
    proof (cases "node \<in> visited st")
      case True
      with nrs "2.prems" show ?thesis by simp
    next
      case False
      with nrs "2.prems" obtain st2 where
        run: "dfs_neighbors lim g (dict_get g node []) (path @ [node])
                (st\<lparr>visited := insert node (visited st),
                    rec_stack := insert node (rec_stack st)\<rparr>) = Inr st2"
        and res: "st' = st2\<lparr>rec_stack := rec_stack st2 - {node}\<rparr>"
        by (auto split: sum.splits if_splits)
      from "2.IH" [OF nrs False run] have "rec_stack st2 = insert node (rec_stack st)" by simp
      with res nrs show ?thesis by auto
    qed
  qed
next
  case (3 lim g path st)
  then show ?case by simp
next
  case (4 lim g neighbor others path st)
  from "4.prems" obtain st1 where
    a: "dfs lim g neighbor path st = Inr st1" and b: "dfs_neighbors lim g others path st1 = Inr st'"
    by (auto split: sum.splits)
  from "4.IH"(1) [OF a] "4.IH"(2) [OF a b] show ?case by simp
qed

lemma dfs_visited_mono:
  shows "dfs lim g node path st = Inr st' \<Longrightarrow> visited st \<subseteq> visited st'"
    and "dfs_neighbors lim g ns path st = Inr st' \<Longrightarrow> visited st \<subseteq> visited st'"
proof (induction lim g node path st and lim g ns path st arbitrary: st' and st'
       rule: dfs_dfs_neighbors.induct)
  case (1 g node path st)
  then show ?case by simp
next
  case (2 lim g node path st)
  show ?case
  proof (cases "node \<in> rec_stack st \<or> node \<in> visited st")
    case True
    with "2.prems" show ?thesis by (auto split: sum.splits if_splits)
  next
    case False
    then have nrs: "node \<notin> rec_stack st" and nv: "node \<notin> visited st" by simp_all
    from nrs nv "2.prems" obtain st2 where
      run: "dfs_neighbors lim g (dict_get g node []) (path @ [node])
              (st\<lparr>visited := insert node (visited st),
                  rec_stack := insert node (rec_stack st)\<rparr>) = Inr st2"
      and res: "st' = st2\<lparr>rec_stack := rec_stack st2 - {node}\<rparr>"
      by (auto split: sum.splits if_splits)
    from "2.IH" [OF nrs nv run] res show ?thesis by auto
  qed
next
  case (3 lim g path st)
  then show ?case by simp
next
  case (4 lim g neighbor others path st)
  from "4.prems" obtain st1 where
    a: "dfs lim g neighbor path st = Inr st1" and b: "dfs_neighbors lim g others path st1 = Inr st'"
    by (auto split: sum.splits)
  from "4.IH"(1) [OF a] "4.IH"(2) [OF a b] show ?case by blast
qed

lemma dfs_cycles_closed:
  shows "dfs lim g node path st = Inr st' \<Longrightarrow> rec_stack st = set path \<Longrightarrow> walk g path \<Longrightarrow>
           path = [] \<or> node \<in> succs g (last path) \<Longrightarrow>
           \<forall>c \<in> set (cycles st). closed_walk g c \<Longrightarrow>
           \<forall>c \<in> set (cycles st'). closed_walk g c"
    and "dfs_neighbors lim g ns path st = Inr st' \<Longrightarrow> rec_stack st = set path \<Longrightarrow>
           walk g path \<Longrightarrow> path \<noteq> [] \<Longrightarrow> set ns \<subseteq> succs g (last path) \<Longrightarrow>
           \<forall>c \<in> set (cycles st). closed_walk g c \<Longrightarrow>
           \<forall>c \<in> set (cycles st'). closed_walk g c"
proof (induction lim g node path st and lim g ns path st arbitrary: st' and st'
       rule: dfs_dfs_neighbors.induct)
  case (1 g node path st)
  then show ?case by simp
next
  case (2 lim g node path st)
  show ?case
  proof (cases "node \<in> rec_stack st")
    case True
    with "2.prems"(2) have mem: "node \<in> set path" by simp
    from list_index_mem [OF mem] obtain i where
      i: "list_index path node = Inr i" "i < length path" "path ! i = node" by blast
    from mem have ne: "path \<noteq> []" by auto
    with "2.prems"(4) have edge: "node \<in> succs g (last path)" by simp
    let ?c = "drop i path @ [node]"
    from True i "2.prems"(1) have st': "st' = st\<lparr>cycles := cycles st @ [?c]\<rparr>" by simp
    have d_ne: "drop i path \<noteq> []" using i(2) by simp
    have "walk g (take i path @ drop i path)" using "2.prems"(3) by simp
    then have "walk g (drop i path)"
      unfolding walk_def successively_append_iff by simp
    then have w: "walk g ?c"
      using edge d_ne i(2) unfolding walk_def by (simp add: successively_append_iff)
    have "hd ?c = node" using i d_ne by (simp add: hd_drop_conv_nth)
    moreover have "2 \<le> length ?c" using i(2) by simp
    ultimately have "closed_walk g ?c" using w by (simp add: closed_walk_def)
    with st' "2.prems"(5) show ?thesis by simp
  next
    case nrs: False
    show ?thesis
    proof (cases "node \<in> visited st")
      case True
      with nrs "2.prems" show ?thesis by simp
    next
      case False
      let ?st1 = "st\<lparr>visited := insert node (visited st),
                    rec_stack := insert node (rec_stack st)\<rparr>"
      from nrs False "2.prems"(1) obtain st2 where
        run: "dfs_neighbors lim g (dict_get g node []) (path @ [node]) ?st1 = Inr st2"
        and res: "st' = st2\<lparr>rec_stack := rec_stack st2 - {node}\<rparr>"
        by (auto split: sum.splits if_splits)
      have w: "walk g (path @ [node])"
        using "2.prems"(3,4) unfolding walk_def by (auto simp add: successively_append_iff)
      have "\<forall>c \<in> set (cycles st2). closed_walk g c"
        by (rule "2.IH" [OF nrs False run]) (use "2.prems" w in \<open>simp_all add: succs_def\<close>)
      with res show ?thesis by simp
    qed
  qed
next
  case (3 lim g path st)
  then show ?case by simp
next
  case (4 lim g neighbor others path st)
  from "4.prems"(1) obtain st1 where
    a: "dfs lim g neighbor path st = Inr st1" and b: "dfs_neighbors lim g others path st1 = Inr st'"
    by (auto split: sum.splits)
  have c1: "\<forall>c \<in> set (cycles st1). closed_walk g c"
    by (rule "4.IH"(1) [OF a]) (use "4.prems" in simp_all)
  have rs: "rec_stack st1 = set path" using dfs_rec_stack(1) [OF a] "4.prems"(2) by simp
  show ?case
    by (rule "4.IH"(2) [OF a b rs]) (use "4.prems" c1 in simp_all)
qed

text \<open>Enough room for nested calls, and the search returns.\<close>

lemma dfs_returns:
  shows "rec_stack st = set path \<Longrightarrow> distinct path \<Longrightarrow> set path \<subseteq> U \<Longrightarrow> node \<in> U \<Longrightarrow>
           finite U \<Longrightarrow> \<forall>n. succs g n \<subseteq> U \<Longrightarrow> card U < lim + length path \<Longrightarrow>
           \<exists>st'. dfs lim g node path st = Inr st'"
    and "rec_stack st = set path \<Longrightarrow> distinct path \<Longrightarrow> set path \<subseteq> U \<Longrightarrow> set ns \<subseteq> U \<Longrightarrow>
           finite U \<Longrightarrow> \<forall>n. succs g n \<subseteq> U \<Longrightarrow> card U < lim + length path \<Longrightarrow>
           \<exists>st'. dfs_neighbors lim g ns path st = Inr st'"
proof (induction lim g node path st and lim g ns path st
       rule: dfs_dfs_neighbors.induct)
  case (1 g node path st)
  from "1.prems"(2,3,5) have "length path \<le> card U"
    by (metis card_mono distinct_card)
  with "1.prems"(7) show ?case by simp
next
  case (2 lim g node path st)
  show ?case
  proof (cases "node \<in> rec_stack st")
    case True
    with "2.prems"(1) have "node \<in> set path" by simp
    from list_index_mem [OF this] obtain i where "list_index path node = Inr i" by blast
    with True show ?thesis by simp
  next
    case nrs: False
    show ?thesis
    proof (cases "node \<in> visited st")
      case True
      with nrs show ?thesis by simp
    next
      case False
      let ?st1 = "st\<lparr>visited := insert node (visited st),
                    rec_stack := insert node (rec_stack st)\<rparr>"
      have np: "node \<notin> set path" using nrs "2.prems"(1) by simp
      have "\<exists>st2. dfs_neighbors lim g (dict_get g node []) (path @ [node]) ?st1 = Inr st2"
      proof (rule "2.IH" [OF nrs False])
        show "rec_stack ?st1 = set (path @ [node])" using "2.prems"(1) by simp
        show "distinct (path @ [node])" using "2.prems"(2) np by simp
        show "set (path @ [node]) \<subseteq> U" using "2.prems"(3,4) by simp
        show "set (dict_get g node []) \<subseteq> U" using "2.prems"(6) by (simp add: succs_def)
        show "finite U" by fact
        show "\<forall>n. succs g n \<subseteq> U" by fact
        show "card U < lim + length (path @ [node])" using "2.prems"(7) by simp
      qed
      then obtain st2 where
        run: "dfs_neighbors lim g (dict_get g node []) (path @ [node]) ?st1 = Inr st2" by blast
      from dfs_rec_stack(2) [OF run] have "node \<in> rec_stack st2" by simp
      with nrs False run show ?thesis by simp
    qed
  qed
next
  case (3 lim g path st)
  then show ?case by simp
next
  case (4 lim g neighbor others path st)
  have "\<exists>st1. dfs lim g neighbor path st = Inr st1"
    by (rule "4.IH"(1)) (use "4.prems" in simp_all)
  then obtain st1 where a: "dfs lim g neighbor path st = Inr st1" by blast
  have rs: "rec_stack st1 = set path" using dfs_rec_stack(1) [OF a] "4.prems"(1) by simp
  have "\<exists>st'. dfs_neighbors lim g others path st1 = Inr st'"
    by (rule "4.IH"(2) [OF a rs]) (use "4.prems" in simp_all)
  with a show ?case by simp
qed

lemma dfs_from_each_cycles_closed:
  "dfs_from_each lim g ns st = Inr st' \<Longrightarrow> rec_stack st = {} \<Longrightarrow>
     \<forall>c \<in> set (cycles st). closed_walk g c \<Longrightarrow>
     \<forall>c \<in> set (cycles st'). closed_walk g c"
proof (induction ns arbitrary: st)
  case Nil
  then show ?case by simp
next
  case (Cons node others)
  show ?case
  proof (cases "node \<in> visited st")
    case True
    with Cons show ?thesis by simp
  next
    case False
    with Cons.prems(1) obtain st1 where
      a: "dfs lim g node [] st = Inr st1" and b: "dfs_from_each lim g others st1 = Inr st'"
      by (auto split: sum.splits)
    have "\<forall>c \<in> set (cycles st1). closed_walk g c"
      by (rule dfs_cycles_closed(1) [OF a]) (use Cons.prems in \<open>simp_all add: walk_def\<close>)
    moreover have "rec_stack st1 = {}" using dfs_rec_stack(1) [OF a] Cons.prems(2) by simp
    ultimately show ?thesis using Cons.IH [OF b] by simp
  qed
qed

lemma dfs_from_each_returns:
  "rec_stack st = {} \<Longrightarrow> set ns \<subseteq> U \<Longrightarrow> finite U \<Longrightarrow> \<forall>n. succs g n \<subseteq> U \<Longrightarrow> card U < lim \<Longrightarrow>
     \<exists>st'. dfs_from_each lim g ns st = Inr st'"
proof (induction ns arbitrary: st)
  case Nil
  then show ?case by simp
next
  case (Cons node others)
  show ?case
  proof (cases "node \<in> visited st")
    case True
    with Cons show ?thesis by simp
  next
    case False
    have "\<exists>st1. dfs lim g node [] st = Inr st1"
      by (rule dfs_returns(1) [where U = U]) (use Cons.prems in simp_all)
    then obtain st1 where a: "dfs lim g node [] st = Inr st1" by blast
    have "rec_stack st1 = {}" using dfs_rec_stack(1) [OF a] Cons.prems(1) by simp
    from Cons.IH [OF this] Cons.prems obtain st' where
      "dfs_from_each lim g others st1 = Inr st'" by auto
    with a False show ?thesis by simp
  qed
qed

lemma succs_in_universe: "succs g n \<subseteq> graph_universe g"
proof
  fix x
  assume "x \<in> succs g n"
  then obtain v where v: "map_of g n = Some v" and x: "x \<in> set v"
    by (cases "map_of g n") (auto simp: succs_def dict_get_def)
  from v have "(n, v) \<in> set g" by (rule map_of_SomeD)
  with x have "x \<in> set (concat (map snd g))" by force
  then show "x \<in> graph_universe g" by (simp add: graph_universe_def)
qed

text \<open>
  C10. Every cycle the detector reports is a closed walk of the graph: it has at least
  two elements, begins and ends with the same identifier, and each element is followed by
  one of its targets in the forward adjacency. The detector does report (it does not
  raise) once the recursion limit exceeds the number of identifiers in the graph.
\<close>

theorem reported_cycles_are_closed_walks:
  "(\<forall>found. detect_circular_dependencies lim g ns = Inr found \<longrightarrow>
      (\<forall>c \<in> set found.
         2 \<le> length c \<and> hd c = last c \<and>
         (\<forall>i. Suc i < length c \<longrightarrow> c ! Suc i \<in> set (dict_get g (c ! i) []))))
   \<and> (card (set ns \<union> graph_universe g) < lim \<longrightarrow>
        (\<exists>found. detect_circular_dependencies lim g ns = Inr found))"
proof (intro conjI allI impI)
  fix found
  assume run: "detect_circular_dependencies lim g ns = Inr found"
  then obtain st where
    st: "dfs_from_each lim g ns \<lparr>visited = {}, rec_stack = {}, cycles = []\<rparr> = Inr st"
    and found: "found = cycles st"
    by (auto simp: detect_circular_dependencies_def split: sum.splits)
  have "\<forall>c \<in> set (cycles st). closed_walk g c"
    by (rule dfs_from_each_cycles_closed [OF st]) simp_all
  then show "\<forall>c \<in> set found.
         2 \<le> length c \<and> hd c = last c \<and>
         (\<forall>i. Suc i < length c \<longrightarrow> c ! Suc i \<in> set (dict_get g (c ! i) []))"
    unfolding found closed_walk_def walk_def successively_conv_nth succs_def by blast
next
  assume big: "card (set ns \<union> graph_universe g) < lim"
  have "\<exists>st. dfs_from_each lim g ns \<lparr>visited = {}, rec_stack = {}, cycles = []\<rparr> = Inr st"
  proof (rule dfs_from_each_returns [where U = "set ns \<union> graph_universe g"])
    show "finite (set ns \<union> graph_universe g)" by (simp add: graph_universe_def)
    show "\<forall>n. succs g n \<subseteq> set ns \<union> graph_universe g" using succs_in_universe by blast
  qed (use big in simp_all)
  then show "\<exists>found. detect_circular_dependencies lim g ns = Inr found"
    by (auto simp: detect_circular_dependencies_def)
qed

theorem reported_cycles_are_closed_walks_witness:
  "detect_circular_dependencies 4 [(''A'', [''B'']), (''B'', [''C'']), (''C'', [''A''])]
      [''A'', ''B'', ''C''] = Inr [[''A'', ''B'', ''C'', ''A'']]
   \<and> hd [''A'', ''B'', ''C'', ''A''] = last [''A'', ''B'', ''C'', ''A'']
   \<and> [''A'', ''B'', ''C'', ''A''] ! Suc 2
         \<in> set (dict_get [(''A'', [''B'']), (''B'', [''C'']), (''C'', [''A''])]
                   ([''A'', ''B'', ''C'', ''A''] ! 2) [])"
proof -
  have run: "detect_circular_dependencies 4 [(''A'', [''B'']), (''B'', [''C'']), (''C'', [''A''])]
      [''A'', ''B'', ''C''] = Inr [[''A'', ''B'', ''C'', ''A'']]"
    by (simp add: detect_circular_dependencies_def numeral_nat dict_get_def)
  from reported_cycles_are_closed_walks
         [of 4 "[(''A'', [''B'']), (''B'', [''C'']), (''C'', [''A''])]" "[''A'', ''B'', ''C'']"]
       run
  have "\<forall>c \<in> set [[''A'', ''B'', ''C'', ''A'']].
         2 \<le> length c \<and> hd c = last c \<and>
         (\<forall>i. Suc i < length c \<longrightarrow>
            c ! Suc i \<in> set (dict_get [(''A'', [''B'']), (''B'', [''C'']), (''C'', [''A''])]
                                (c ! i) []))"
    by blast
  then have "hd [''A'', ''B'', ''C'', ''A''] = last [''A'', ''B'', ''C'', ''A'']"
    and "\<forall>i. Suc i < length [''A'', ''B'', ''C'', ''A''] \<longrightarrow>
            [''A'', ''B'', ''C'', ''A''] ! Suc i
              \<in> set (dict_get [(''A'', [''B'']), (''B'', [''C'']), (''C'', [''A''])]
                        ([''A'', ''B'', ''C'', ''A''] ! i) [])"
    by simp_all
  from this(1) this(2) [rule_format, of 2] run show ?thesis by simp
qed


lemma dfs_from_each_all_visited:
  "set ns \<subseteq> visited st \<Longrightarrow> dfs_from_each lim g ns st = Inr st"
  by (induction ns) auto

lemma list_index_split:
  assumes "x \<in> set xs"
  shows "\<exists>i pre suf. list_index xs x = Inr i \<and> xs = pre @ x # suf \<and> x \<notin> set pre
           \<and> drop i xs = x # suf"
proof -
  from list_index_mem [OF assms] obtain i where
    i: "list_index xs x = Inr i" "i < length xs" "xs ! i = x" "x \<notin> set (take i xs)" by blast
  have "xs = take i xs @ x # drop (Suc i) xs"
    using id_take_nth_drop [OF i(2)] i(3) by simp
  moreover have "drop i xs = x # drop (Suc i) xs"
    using Cons_nth_drop_Suc [OF i(2)] i(3) by simp
  ultimately show ?thesis using i(1,4) by blast
qed

lemma triangle_from_first:
  assumes d: "a \<noteq> b" "b \<noteq> c" "c \<noteq> a"
    and g: "dict_get g a [] = [b]" "dict_get g b [] = [c]" "dict_get g c [] = [a]"
    and rest: "set others \<subseteq> {a, b, c}"
  shows "detect_circular_dependencies (Suc (Suc (Suc (Suc k)))) g (a # others)
           = Inr [[a, b, c, a]]"
proof -
  let ?st0 = "\<lparr>visited = {}, rec_stack = {}, cycles = []\<rparr>"
  let ?st1 = "\<lparr>visited = {c, b, a}, rec_stack = {}, cycles = [[a, b, c, a]]\<rparr>"
  have neq: "b \<noteq> a" "c \<noteq> b" "a \<noteq> c" using d by auto
  have "dfs (Suc (Suc (Suc (Suc k)))) g a [] ?st0 = Inr ?st1"
    using d neq g by (simp add: insert_Diff_if)
  moreover have "dfs_from_each (Suc (Suc (Suc (Suc k)))) g others ?st1 = Inr ?st1"
    by (rule dfs_from_each_all_visited) (use rest in auto)
  ultimately show ?thesis by (simp add: detect_circular_dependencies_def)
qed

text \<open>
  C3. When the search reaches a node that is on the active path, the cycle it records
  is the part of the path from the node's first occurrence on, with the node appended.
  For the edges A to B, B to C, C to A the detector reports the one cycle A, B, C, A,
  read from whichever node the iteration over the node set visits first.
\<close>

theorem cycle_is_path_suffix_plus_node:
  "(rec_stack st = set path \<and> node \<in> rec_stack st \<longrightarrow>
      (\<exists>pre suf. path = pre @ node # suf \<and> node \<notin> set pre \<and>
         dfs (Suc lim) g node path st = Inr (st\<lparr>cycles := cycles st @ [node # suf @ [node]]\<rparr>)))
   \<and> (A \<noteq> B \<and> B \<noteq> C \<and> C \<noteq> A \<and> ns \<noteq> [] \<and> set ns \<subseteq> {A, B, C} \<and> 4 \<le> lim' \<longrightarrow>
        detect_circular_dependencies lim' [(A, [B]), (B, [C]), (C, [A])] ns
          \<in> {Inr [[A, B, C, A]], Inr [[B, C, A, B]], Inr [[C, A, B, C]]})"
proof (intro conjI impI)
  assume "rec_stack st = set path \<and> node \<in> rec_stack st"
  then have mem: "node \<in> set path" and rs: "node \<in> rec_stack st" by blast+
  from list_index_split [OF mem] obtain i pre suf where
    "list_index path node = Inr i" "path = pre @ node # suf" "node \<notin> set pre"
    "drop i path = node # suf" by blast
  with rs show "\<exists>pre suf. path = pre @ node # suf \<and> node \<notin> set pre \<and>
         dfs (Suc lim) g node path st = Inr (st\<lparr>cycles := cycles st @ [node # suf @ [node]]\<rparr>)"
    by auto
next
  assume h: "A \<noteq> B \<and> B \<noteq> C \<and> C \<noteq> A \<and> ns \<noteq> [] \<and> set ns \<subseteq> {A, B, C} \<and> 4 \<le> lim'"
  let ?g = "[(A, [B]), (B, [C]), (C, [A])]"
  from h have "\<exists>k. lim' = 4 + k" by (simp add: le_iff_add)
  then obtain k where "lim' = 4 + k" by blast
  then have k: "lim' = Suc (Suc (Suc (Suc k)))" by simp
  from h obtain n others where ns: "ns = n # others" by (cases ns) auto
  with h have n: "n = A \<or> n = B \<or> n = C" and others: "set others \<subseteq> {A, B, C}" by auto
  have gA: "dict_get ?g A [] = [B]" and gB: "dict_get ?g B [] = [C]"
    and gC: "dict_get ?g C [] = [A]"
    using h by (auto simp: dict_get_def)
  from n show "detect_circular_dependencies lim' ?g ns
          \<in> {Inr [[A, B, C, A]], Inr [[B, C, A, B]], Inr [[C, A, B, C]]}"
  proof (elim disjE)
    assume "n = A"
    with triangle_from_first [of A B C ?g others k] h gA gB gC others ns k
    show ?thesis by simp
  next
    assume "n = B"
    moreover have "set others \<subseteq> {B, C, A}" using others by auto
    ultimately show ?thesis
      using triangle_from_first [of B C A ?g others k] h gA gB gC ns k by simp
  next
    assume "n = C"
    moreover have "set others \<subseteq> {C, A, B}" using others by auto
    ultimately show ?thesis
      using triangle_from_first [of C A B ?g others k] h gA gB gC ns k by simp
  qed
qed

theorem cycle_is_path_suffix_plus_node_witness:
  "dfs (Suc 0) [(''A'', [''B'']), (''B'', [''C'']), (''C'', [''A''])] ''B'' [''A'', ''B'', ''C'']
      \<lparr>visited = {''A'', ''B'', ''C''}, rec_stack = {''A'', ''B'', ''C''}, cycles = []\<rparr>
     = Inr \<lparr>visited = {''A'', ''B'', ''C''}, rec_stack = {''A'', ''B'', ''C''},
             cycles = [[''B'', ''C'', ''B'']]\<rparr>
   \<and> detect_circular_dependencies 4 [(''A'', [''B'']), (''B'', [''C'']), (''C'', [''A''])]
        [''C'', ''A'', ''B'']
       \<in> {Inr [[''A'', ''B'', ''C'', ''A'']], Inr [[''B'', ''C'', ''A'', ''B'']],
           Inr [[''C'', ''A'', ''B'', ''C'']]}"
proof -
  let ?st = "\<lparr>visited = {''A'', ''B'', ''C''}, rec_stack = {''A'', ''B'', ''C''}, cycles = []\<rparr>"
  let ?g = "[(''A'', [''B'']), (''B'', [''C'']), (''C'', [''A''])]"
  note inst = cycle_is_path_suffix_plus_node
    [of ?st "[''A'', ''B'', ''C'']" "''B''" 0 ?g "''A''" "''B''" "''C''" "[''C'', ''A'', ''B'']" 4]
  have pre: "rec_stack ?st = set [''A'', ''B'', ''C''] \<and> ''B'' \<in> rec_stack ?st" by auto
  from inst pre obtain pre suf where
    ps: "[''A'', ''B'', ''C''] = pre @ ''B'' # suf" "''B'' \<notin> set pre"
    and run: "dfs (Suc 0) ?g ''B'' [''A'', ''B'', ''C''] ?st
                = Inr (?st\<lparr>cycles := cycles ?st @ [''B'' # suf @ [''B'']]\<rparr>)"
    by blast
  from ps have "pre = [''A''] \<and> suf = [''C'']"
    by (cases pre; cases "tl pre") auto
  with run have first: "dfs (Suc 0) ?g ''B'' [''A'', ''B'', ''C''] ?st
     = Inr \<lparr>visited = {''A'', ''B'', ''C''}, rec_stack = {''A'', ''B'', ''C''},
             cycles = [[''B'', ''C'', ''B'']]\<rparr>" by simp
  have "''A'' \<noteq> ''B'' \<and> ''B'' \<noteq> ''C'' \<and> ''C'' \<noteq> ''A'' \<and> [''C'', ''A'', ''B''] \<noteq> []
          \<and> set [''C'', ''A'', ''B''] \<subseteq> {''A'', ''B'', ''C''} \<and> (4::nat) \<le> 4" by auto
  with inst have "detect_circular_dependencies 4 ?g [''C'', ''A'', ''B'']
       \<in> {Inr [[''A'', ''B'', ''C'', ''A'']], Inr [[''B'', ''C'', ''A'', ''B'']],
           Inr [[''C'', ''A'', ''B'', ''C'']]}" by blast
  with first show ?thesis by blast
qed


section \<open>What computing the metrics does to the graph\<close>

lemma dict_set_fresh: "map_of d k = None \<Longrightarrow> dict_set d k v = d @ [(k, v)]"
  by (induction d k v rule: dict_set.induct) (auto split: if_splits)

lemma padded_refl: "padded d d"
  unfolding padded_def by (rule exI [of _ "[]"]) simp

lemma padded_trans:
  assumes "padded d d'" and "padded d' d''"
  shows "padded d d''"
proof -
  from assms(1) obtain ks where
    ks: "d' = d @ map (\<lambda>k. (k, [])) ks" "\<forall>k \<in> set ks. map_of d k = None"
    unfolding padded_def by blast
  from assms(2) obtain ks' where
    ks': "d'' = d' @ map (\<lambda>k. (k, [])) ks'" "\<forall>k \<in> set ks'. map_of d' k = None"
    unfolding padded_def by blast
  have "\<forall>k \<in> set ks'. map_of d k = None"
    using ks'(2) unfolding ks(1) by (auto simp: map_add_def split: option.splits)
  with ks ks'(1) have "d'' = d @ map (\<lambda>k. (k, [])) (ks @ ks')
                        \<and> (\<forall>k \<in> set (ks @ ks'). map_of d k = None)" by auto
  then show ?thesis unfolding padded_def by blast
qed

lemma map_of_pad:
  "map_of (map (\<lambda>k. (k, [])) ks) k = (if k \<in> set ks then Some [] else None)"
  by (induction ks) auto

lemma padded_dict_get:
  assumes "padded d d'"
  shows "dict_get d' k [] = dict_get d k []"
proof -
  from assms obtain ks where
    ks: "d' = d @ map (\<lambda>k. (k, [])) ks" "\<forall>k \<in> set ks. map_of d k = None"
    unfolding padded_def by blast
  show ?thesis
    unfolding ks(1) dict_get_def
    by (auto simp: map_add_def map_of_pad split: option.splits)
qed

lemma padded_map_of:
  assumes "padded d d'" and "map_of d k = Some v"
  shows "map_of d' k = Some v"
proof -
  from assms(1) obtain ks where ks: "d' = d @ map (\<lambda>k. (k, [])) ks"
    unfolding padded_def by blast
  show ?thesis unfolding ks using assms(2) by (simp add: map_add_def)
qed

lemma padded_dd_getitem: "padded d (snd (dd_getitem d k))"
proof (cases "map_of d k")
  case None
  then have "snd (dd_getitem d k) = d @ map (\<lambda>k. (k, [])) [k]"
    by (simp add: dd_getitem_def dict_set_fresh)
  with None show ?thesis unfolding padded_def by (intro exI [of _ "[k]"]) simp
next
  case (Some v)
  then show ?thesis by (simp add: dd_getitem_def padded_refl)
qed

lemma dd_getitem_value: "fst (dd_getitem d k) = dict_get d k []"
  by (simp add: dd_getitem_def dict_get_def split: option.splits)

lemma padded_select_empty: "padded d (snd (select_empty d ns))"
proof (induction ns arbitrary: d)
  case Nil
  show ?case by (simp add: padded_refl)
next
  case (Cons node others)
  have "snd (select_empty d (node # others))
          = snd (select_empty (snd (dd_getitem d node)) others)"
    by (simp add: split_beta Let_def)
  with padded_trans [OF padded_dd_getitem Cons.IH] show ?case by simp
qed

lemma padded_bfs_loop: "padded g (snd (bfs_loop g vis queue deepest))"
proof (induction g vis queue deepest rule: bfs_loop.induct)
  case (1 g vis deepest)
  show ?case by (simp add: padded_refl)
next
  case (2 g vis node depth queue deepest)
  show ?case
  proof (cases "node \<in> vis")
    case True
    with 2 show ?thesis by simp
  next
    case False
    from "2.IH"(2) [OF False] padded_dd_getitem [of g node]
    show ?thesis using False by (simp add: padded_trans)
  qed
qed

lemma padded_calculate_depth: "padded g (snd (calculate_depth_from_node g start_node))"
  by (simp add: calculate_depth_from_node_def padded_refl padded_bfs_loop del: bfs_loop.simps)

lemma padded_depth_over_roots: "padded g (snd (depth_over_roots g roots deepest))"
proof (induction roots arbitrary: g deepest)
  case Nil
  show ?case by (simp add: padded_refl)
next
  case (Cons root others)
  have "snd (depth_over_roots g (root # others) deepest)
          = snd (depth_over_roots (snd (calculate_depth_from_node g root)) others
                   (max deepest (fst (calculate_depth_from_node g root))))"
    by (simp add: split_beta)
  with padded_trans [OF padded_calculate_depth Cons.IH] show ?case by simp
qed

lemma metrics_graph_parts:
  assumes "calculate_graph_metrics lim a = Inr a'"
  shows "nodes a' = nodes a" and "package_info a' = package_info a"
    and "reverse_graph a' = snd (select_empty (reverse_graph a) (nodes a))"
    and "graph a' = snd (depth_over_roots (snd (select_empty (graph a) (nodes a)))
                           (fst (select_empty (reverse_graph a) (nodes a))) 0)"
  using assms
  by (auto simp: calculate_graph_metrics_def split_beta Let_def split: sum.splits)

text \<open>
  C6, as the code has it. Computing the metrics leaves the node set and the package
  information as they were, and every identifier keeps its sequence of out-edges and of
  in-edges. The two adjacency dictionaries do not stay identical: each can gain keys,
  appended after the existing entries and bound to the empty list, for identifiers that
  had no entry.
\<close>

theorem metrics_only_pad_the_graph:
  "calculate_graph_metrics lim a = Inr a' \<Longrightarrow>
     nodes a' = nodes a \<and> package_info a' = package_info a
     \<and> padded (graph a) (graph a') \<and> padded (reverse_graph a) (reverse_graph a')
     \<and> (\<forall>k. dict_get (graph a') k [] = dict_get (graph a) k [])
     \<and> (\<forall>k. dict_get (reverse_graph a') k [] = dict_get (reverse_graph a) k [])"
proof -
  assume run: "calculate_graph_metrics lim a = Inr a'"
  note parts = metrics_graph_parts [OF run]
  have g: "padded (graph a) (graph a')"
    unfolding parts(4) by (rule padded_trans [OF padded_select_empty padded_depth_over_roots])
  have rg: "padded (reverse_graph a) (reverse_graph a')"
    unfolding parts(3) by (rule padded_select_empty)
  from g rg parts(1,2) show ?thesis by (simp add: padded_dict_get)
qed

lemma leaf_example_metrics:
  "calculate_graph_metrics 3 leaf_example
     = Inr (leaf_example\<lparr>graph := [(''o/a'', [''o/b'']), (''o/b'', [])],
                         reverse_graph := [(''o/b'', [''o/a'']), (''o/a'', [])],
                         stats := \<lparr>total_nodes = 2, total_edges = 1, root_packages = 1,
                                   leaf_packages = 1, max_depth = 1,
                                   circular_dependencies = []\<rparr>\<rparr>)"
  by (simp add: calculate_graph_metrics_def leaf_example_def new_analyzer_def dd_getitem_def
        calculate_depth_from_node_def detect_circular_dependencies_def dict_get_def
        numeral_nat)

theorem metrics_only_pad_the_graph_witness:
  "padded (graph leaf_example) [(''o/a'', [''o/b'']), (''o/b'', [])]
   \<and> dict_get [(''o/a'', [''o/b'']), (''o/b'', [])] ''o/b'' [] = dict_get (graph leaf_example) ''o/b'' []"
  using metrics_only_pad_the_graph [OF leaf_example_metrics] by simp

theorem metrics_change_the_graph_counterexample:
  "calculate_graph_metrics 3 leaf_example
     = Inr (leaf_example\<lparr>graph := [(''o/a'', [''o/b'']), (''o/b'', [])],
                         reverse_graph := [(''o/b'', [''o/a'']), (''o/a'', [])],
                         stats := \<lparr>total_nodes = 2, total_edges = 1, root_packages = 1,
                                   leaf_packages = 1, max_depth = 1,
                                   circular_dependencies = []\<rparr>\<rparr>)
   \<and> graph leaf_example \<noteq> [(''o/a'', [''o/b'']), (''o/b'', [])]
   \<and> reverse_graph leaf_example \<noteq> [(''o/b'', [''o/a'']), (''o/a'', [])]"
  by (simp add: leaf_example_metrics) (simp add: leaf_example_def)


section \<open>The maximum depth\<close>

lemma hops_le: "v \<in> reach_in E r n \<Longrightarrow> hops E r v \<le> n"
  unfolding hops_def by (rule Least_le)

lemma hops_reach: "v \<in> reachable E r \<Longrightarrow> v \<in> reach_in E r (hops E r v)"
  unfolding hops_def reachable_def by (auto intro: LeastI)

lemma reachable_I: "v \<in> reach_in E r n \<Longrightarrow> v \<in> reachable E r"
  unfolding reachable_def by blast

lemma hops_root: "hops E r r = 0"
  using hops_le [of r E r 0] by simp

lemma root_reachable: "r \<in> reachable E r"
  by (rule reachable_I [of r E r 0]) simp

lemma hops_pred:
  assumes "w \<in> reachable E r" and "w \<noteq> r"
  shows "\<exists>u. u \<in> reachable E r \<and> w \<in> E u \<and> Suc (hops E r u) = hops E r w"
proof -
  from hops_reach [OF assms(1)] have mem: "w \<in> reach_in E r (hops E r w)" .
  have "hops E r w \<noteq> 0"
  proof
    assume "hops E r w = 0"
    with mem assms(2) show False by simp
  qed
  then obtain n where n: "hops E r w = Suc n" by (cases "hops E r w") auto
  with mem obtain u where u: "u \<in> reach_in E r n" "w \<in> E u" by auto
  from u(1) have le: "hops E r u \<le> n" by (rule hops_le)
  have "u \<in> reach_in E r (hops E r u)" by (rule hops_reach [OF reachable_I [OF u(1)]])
  with u(2) have "w \<in> reach_in E r (Suc (hops E r u))" by auto
  then have "hops E r w \<le> Suc (hops E r u)" by (rule hops_le)
  with n le have "Suc (hops E r u) = hops E r w" by simp
  with u reachable_I [OF u(1)] show ?thesis by blast
qed

lemma sorted_le_last: "sorted xs \<Longrightarrow> (x::nat) \<in> set xs \<Longrightarrow> x \<le> last xs"
  by (induction xs) auto

lemma sorted_const: "sorted (map (\<lambda>x. (c::nat)) xs)"
  by (induction xs) auto

lemma Max_insert0:
  assumes "finite S"
  shows "Max (insert 0 (insert (x::nat) S)) = max x (Max (insert 0 S))"
proof -
  have "Max (insert x (insert 0 S)) = max x (Max (insert 0 S))"
    by (rule Max_insert) (use assms in auto)
  moreover have "insert 0 (insert x S) = insert x (insert 0 S)" by auto
  ultimately show ?thesis by (simp only:)
qed

lemma Max_insert_max:
  "finite S \<Longrightarrow> Max (insert (max a b) S) = Max (insert (a::nat) (insert b S))"
  by (cases "S = {}") (simp_all add: max.assoc)

lemma queue_has_entry:
  assumes inv: "bfs_inv E r vis queue deepest"
  shows "w \<in> reachable E r \<Longrightarrow> w \<notin> vis \<Longrightarrow> \<exists>(x, j) \<in> set queue. j \<le> hops E r w"
proof (induction "hops E r w" arbitrary: w rule: less_induct)
  case less
  show ?case
  proof (cases "w = r")
    case True
    with less.prems(2) inv have "(r, 0) \<in> set queue" by (auto simp: bfs_inv_def)
    then show ?thesis by (intro bexI [of _ "(r, 0)"]) simp_all
  next
    case False
    from hops_pred [OF less.prems(1) False] obtain u where
      u: "u \<in> reachable E r" "w \<in> E u" "Suc (hops E r u) = hops E r w" by blast
    show ?thesis
    proof (cases "u \<in> vis")
      case True
      with inv u(2) less.prems(2) have "(w, Suc (hops E r u)) \<in> set queue"
        by (auto simp: bfs_inv_def)
      with u(3) show ?thesis by (intro bexI [of _ "(w, Suc (hops E r u))"]) simp_all
    next
      case False
      have "hops E r u < hops E r w" using u(3) by simp
      from less.hyps [OF this u(1) False] obtain x j where
        xj: "(x, j) \<in> set queue" "j \<le> hops E r u" by auto
      from xj(2) u(3) have "j \<le> hops E r w" by simp
      with xj(1) show ?thesis by (intro bexI [of _ "(x, j)"]) simp_all
    qed
  qed
qed

lemma head_depth_exact:
  assumes inv: "bfs_inv E r vis ((v, k) # queue) deepest" and new: "v \<notin> vis"
  shows "k = hops E r v" and "v \<in> reachable E r"
proof -
  from inv have mem: "v \<in> reach_in E r k" by (auto simp: bfs_inv_def)
  then show reach: "v \<in> reachable E r" by (rule reachable_I)
  from mem have up: "hops E r v \<le> k" by (rule hops_le)
  from queue_has_entry [OF inv reach new] obtain x j where
    xj: "(x, j) \<in> set ((v, k) # queue)" "j \<le> hops E r v" by auto
  from inv have "sorted (k # map snd queue)" by (simp add: bfs_inv_def)
  with xj(1) have "k \<le> j" by force
  with xj(2) up show "k = hops E r v" by simp
qed

lemma bfs_inv_skip:
  assumes inv: "bfs_inv E r vis ((v, k) # queue) deepest" and old: "v \<in> vis"
  shows "bfs_inv E r vis queue deepest"
proof -
  from inv have s: "sorted (k # map snd queue)"
    and l: "snd (last ((v, k) # queue)) \<le> Suc k" by (simp_all add: bfs_inv_def)
  have "queue \<noteq> [] \<longrightarrow> snd (last queue) \<le> Suc (snd (hd queue))"
  proof
    assume ne: "queue \<noteq> []"
    then have "k \<le> snd (hd queue)" using s by (cases queue) auto
    with l ne show "snd (last queue) \<le> Suc (snd (hd queue))" by simp
  qed
  moreover have "\<forall>u \<in> vis. \<forall>w \<in> E u. w \<notin> vis \<longrightarrow> (w, Suc (hops E r u)) \<in> set queue"
    using inv old by (auto simp: bfs_inv_def)
  moreover have "r \<in> vis \<or> (r, 0) \<in> set queue" using inv old by (auto simp: bfs_inv_def)
  ultimately show ?thesis using inv s by (auto simp: bfs_inv_def)
qed

lemma bfs_inv_visit:
  assumes inv: "bfs_inv E r vis ((v, k) # queue) deepest" and new: "v \<notin> vis"
    and deps: "set deps = E v"
  shows "bfs_inv E r (insert v vis)
           (queue @ map (\<lambda>w. (w, k + 1)) (filter (\<lambda>w. w \<notin> insert v vis) deps))
           (max deepest k)"
proof -
  let ?new = "map (\<lambda>w. (w, k + 1)) (filter (\<lambda>w. w \<notin> insert v vis) deps)"
  note exact = head_depth_exact [OF inv new]
  from inv have fin: "finite vis" and sub: "vis \<subseteq> reachable E r"
    and s: "sorted (k # map snd queue)"
    and l: "snd (last ((v, k) # queue)) \<le> Suc k"
    and q: "\<forall>(x, j) \<in> set ((v, k) # queue). x \<in> reach_in E r j"
    and e: "\<forall>u \<in> vis. \<forall>w \<in> E u. w \<notin> vis \<longrightarrow> (w, Suc (hops E r u)) \<in> set ((v, k) # queue)"
    and d: "deepest = Max (insert 0 (hops E r ` vis))"
    by (simp_all add: bfs_inv_def)
  have bound: "\<forall>j \<in> set (map snd queue). k \<le> j \<and> j \<le> Suc k"
  proof
    fix j assume j: "j \<in> set (map snd queue)"
    then have ne: "queue \<noteq> []" by auto
    from s j have lo: "k \<le> j" by auto
    from s have "sorted (map snd queue)" by simp
    then have "j \<le> last (map snd queue)" using j by (rule sorted_le_last)
    also have "\<dots> = snd (last queue)" using ne by (simp add: last_map)
    also have "\<dots> \<le> Suc k" using l ne by simp
    finally show "k \<le> j \<and> j \<le> Suc k" using lo by simp
  qed
  have sorted': "sorted (map snd (queue @ ?new))"
    using s bound by (auto simp: sorted_append comp_def sorted_const)
  have last': "queue @ ?new \<noteq> [] \<longrightarrow>
                 snd (last (queue @ ?new)) \<le> Suc (snd (hd (queue @ ?new)))"
  proof
    assume ne: "queue @ ?new \<noteq> []"
    have "\<forall>p \<in> set (queue @ ?new). k \<le> snd p \<and> snd p \<le> Suc k" using bound by auto
    moreover have "hd (queue @ ?new) \<in> set (queue @ ?new)" using ne by (rule hd_in_set)
    moreover have "last (queue @ ?new) \<in> set (queue @ ?new)" using ne by (rule last_in_set)
    ultimately have "k \<le> snd (hd (queue @ ?new))" "snd (last (queue @ ?new)) \<le> Suc k"
      by blast+
    then show "snd (last (queue @ ?new)) \<le> Suc (snd (hd (queue @ ?new)))" by simp
  qed
  have v_in: "v \<in> reach_in E r k" using q by simp
  have reach': "\<forall>(x, j) \<in> set (queue @ ?new). x \<in> reach_in E r j"
    using q v_in deps by auto
  have edges': "\<forall>u \<in> insert v vis. \<forall>w \<in> E u. w \<notin> insert v vis \<longrightarrow>
                  (w, Suc (hops E r u)) \<in> set (queue @ ?new)"
  proof (intro ballI impI)
    fix u w assume u: "u \<in> insert v vis" and w: "w \<in> E u" "w \<notin> insert v vis"
    show "(w, Suc (hops E r u)) \<in> set (queue @ ?new)"
    proof (cases "u = v")
      case True
      with w deps exact(1) show ?thesis by auto
    next
      case False
      with u have "u \<in> vis" by simp
      with e w have "(w, Suc (hops E r u)) \<in> set ((v, k) # queue)" by auto
      with w(2) show ?thesis by auto
    qed
  qed
  have root': "r \<in> insert v vis \<or> (r, 0) \<in> set (queue @ ?new)"
    using inv by (auto simp: bfs_inv_def)
  have "hops E r ` insert v vis = insert (hops E r v) (hops E r ` vis)" by simp
  moreover have "finite (hops E r ` vis)" using fin by simp
  ultimately have "Max (insert 0 (hops E r ` insert v vis))
                     = max (hops E r v) (Max (insert 0 (hops E r ` vis)))"
    by (simp only: Max_insert0)
  with d exact(1) have "max deepest k = Max (insert 0 (hops E r ` insert v vis))"
    by (simp only: max.commute)
  with fin sub exact(2) sorted' last' reach' edges' root' show ?thesis
    unfolding bfs_inv_def by blast
qed

lemma bfs_inv_final:
  assumes "bfs_inv E r vis [] deepest"
  shows "deepest = Max (insert 0 (hops E r ` reachable E r))"
proof -
  have "reachable E r \<subseteq> vis"
  proof
    fix w assume "w \<in> reachable E r"
    with queue_has_entry [OF assms, of w] show "w \<in> vis" by auto
  qed
  with assms have "vis = reachable E r" by (auto simp: bfs_inv_def)
  with assms show ?thesis by (simp add: bfs_inv_def)
qed

lemma bfs_inv_start: "bfs_inv E r {} [(r, 0)] 0"
  by (simp add: bfs_inv_def)

lemma succs_dd_getitem: "succs (snd (dd_getitem g k)) = succs g"
  by (rule ext) (simp add: succs_def padded_dict_get [OF padded_dd_getitem])

lemma set_dd_getitem: "set (fst (dd_getitem g k)) = succs g k"
  by (simp add: succs_def dd_getitem_value)

lemma bfs_loop_depth:
  "bfs_inv (succs g) r vis queue deepest \<Longrightarrow>
     fst (bfs_loop g vis queue deepest)
       = Max (insert 0 (hops (succs g) r ` reachable (succs g) r))"
proof (induction g vis queue deepest rule: bfs_loop.induct)
  case (1 g vis deepest)
  then show ?case by (simp add: bfs_inv_final)
next
  case (2 g vis node depth queue deepest)
  show ?case
  proof (cases "node \<in> vis")
    case True
    from bfs_inv_skip [OF "2.prems" True] "2.IH"(1) [OF True] True show ?thesis by simp
  next
    case False
    have "bfs_inv (succs g) r (insert node vis)
            (queue @ map (\<lambda>w. (w, depth + 1))
                       (filter (\<lambda>w. w \<notin> insert node vis) (fst (dd_getitem g node))))
            (max deepest depth)"
      by (rule bfs_inv_visit [OF "2.prems" False set_dd_getitem])
    with "2.IH"(2) [OF False] False show ?thesis by (simp add: succs_dd_getitem)
  qed
qed

lemma reach_in_universe: "reach_in (succs g) r n \<subseteq> insert r (graph_universe g)"
proof (induction n)
  case 0
  show ?case by simp
next
  case (Suc n)
  show ?case using succs_in_universe [of g] by auto
qed

lemma finite_reachable: "finite (reachable (succs g) r)"
proof (rule finite_subset)
  show "reachable (succs g) r \<subseteq> insert r (graph_universe g)"
    using reach_in_universe [of g r] by (auto simp: reachable_def)
  show "finite (insert r (graph_universe g))" by (simp add: graph_universe_def)
qed

lemma reachable_leaf:
  assumes "E r = {}"
  shows "reachable E r = {r}"
proof -
  have "reach_in E r (Suc n) = {}" for n
    by (induction n) (use assms in auto)
  then have "reach_in E r n \<subseteq> {r}" for n by (cases n) auto
  with root_reachable [of r E] show ?thesis by (auto simp: reachable_def)
qed

lemma eccentricity_leaf: "E r = {} \<Longrightarrow> eccentricity E r = 0"
  by (simp add: eccentricity_def reachable_leaf hops_root)

lemma calculate_depth_is_eccentricity:
  "fst (calculate_depth_from_node g start_node) = eccentricity (succs g) start_node"
proof (cases "map_of g start_node = None")
  case True
  then have "succs g start_node = {}" by (simp add: succs_def dict_get_def)
  with True show ?thesis by (simp add: calculate_depth_from_node_def eccentricity_leaf)
next
  case False
  have "fst (bfs_loop g {} [(start_node, 0)] 0) = eccentricity (succs g) start_node"
    unfolding eccentricity_def by (rule bfs_loop_depth [OF bfs_inv_start])
  moreover have "calculate_depth_from_node g start_node = bfs_loop g {} [(start_node, 0)] 0"
    unfolding calculate_depth_from_node_def by (simp only: False if_False)
  ultimately show ?thesis by (simp only:)
qed

lemma succs_padded: "padded g g' \<Longrightarrow> succs g' = succs g"
  by (rule ext) (simp add: succs_def padded_dict_get)

lemma depth_over_roots_max:
  "fst (depth_over_roots g roots deepest)
     = Max (insert deepest (eccentricity (succs g) ` set roots))"
proof (induction roots arbitrary: g deepest)
  case Nil
  show ?case by simp
next
  case (Cons root others)
  let ?g1 = "snd (calculate_depth_from_node g root)"
  have same: "succs ?g1 = succs g" by (rule succs_padded [OF padded_calculate_depth])
  have "fst (depth_over_roots g (root # others) deepest)
          = fst (depth_over_roots ?g1 others (max deepest (eccentricity (succs g) root)))"
    by (simp add: split_beta calculate_depth_is_eccentricity)
  also have "\<dots> = Max (insert (max deepest (eccentricity (succs g) root))
                         (eccentricity (succs g) ` set others))"
    by (simp add: Cons.IH same)
  also have "\<dots> = Max (insert deepest (eccentricity (succs g) ` set (root # others)))"
  proof -
    have "insert deepest (eccentricity (succs g) ` set (root # others))
            = insert deepest (insert (eccentricity (succs g) root)
                                (eccentricity (succs g) ` set others))" by auto
    moreover have "finite (eccentricity (succs g) ` set others)" by simp
    ultimately show ?thesis by (simp only: Max_insert_max)
  qed
  finally show ?case .
qed

lemma select_empty_filter:
  "fst (select_empty d ns) = filter (\<lambda>n. dict_get d n [] = []) ns"
proof (induction ns arbitrary: d)
  case Nil
  show ?case by simp
next
  case (Cons node others)
  have "\<And>n. dict_get (snd (dd_getitem d node)) n [] = dict_get d n []"
    by (rule padded_dict_get [OF padded_dd_getitem])
  then show ?case by (simp add: split_beta Cons.IH dd_getitem_value)
qed

lemma Max_of_Max:
  assumes "finite R" and "\<And>r. r \<in> R \<Longrightarrow> finite (S r)"
  shows "Max (insert (0::nat) ((\<lambda>r. Max (insert 0 (S r))) ` R)) = Max (insert 0 (\<Union>r \<in> R. S r))"
proof (rule antisym)
  have fin: "finite (insert 0 (\<Union>r \<in> R. S r))" using assms by simp
  show "Max (insert 0 ((\<lambda>r. Max (insert 0 (S r))) ` R)) \<le> Max (insert 0 (\<Union>r \<in> R. S r))"
  proof (rule Max.boundedI)
    show "finite (insert 0 ((\<lambda>r. Max (insert 0 (S r))) ` R))" using assms(1) by simp
    show "insert 0 ((\<lambda>r. Max (insert 0 (S r))) ` R) \<noteq> {}" by simp
    fix x assume "x \<in> insert 0 ((\<lambda>r. Max (insert 0 (S r))) ` R)"
    then consider "x = 0" | r where "r \<in> R" "x = Max (insert 0 (S r))" by auto
    then show "x \<le> Max (insert 0 (\<Union>r \<in> R. S r))"
    proof cases
      case 1
      then show ?thesis by simp
    next
      case 2
      have "Max (insert 0 (S r)) \<in> insert 0 (S r)"
        by (rule Max_in) (use assms(2) [OF 2(1)] in auto)
      with 2(1) have "Max (insert 0 (S r)) \<in> insert 0 (\<Union>r \<in> R. S r)" by auto
      with fin 2(2) show ?thesis by (simp only: Max_ge)
    qed
  qed
  show "Max (insert 0 (\<Union>r \<in> R. S r)) \<le> Max (insert 0 ((\<lambda>r. Max (insert 0 (S r))) ` R))"
  proof (rule Max.boundedI)
    show "finite (insert 0 (\<Union>r \<in> R. S r))" by (rule fin)
    show "insert 0 (\<Union>r \<in> R. S r) \<noteq> {}" by simp
    fix x assume "x \<in> insert 0 (\<Union>r \<in> R. S r)"
    then consider "x = 0" | r where "r \<in> R" "x \<in> S r" by auto
    then show "x \<le> Max (insert 0 ((\<lambda>r. Max (insert 0 (S r))) ` R))"
    proof cases
      case 1
      then show ?thesis by simp
    next
      case 2
      have "x \<le> Max (insert 0 (S r))"
        by (rule Max_ge) (use assms(2) [OF 2(1)] 2(2) in auto)
      also have "\<dots> \<le> Max (insert 0 ((\<lambda>r. Max (insert 0 (S r))) ` R))"
        by (rule Max_ge) (use assms(1) 2(1) in auto)
      finally show ?thesis .
    qed
  qed
qed

lemma metrics_max_depth:
  assumes "calculate_graph_metrics lim a = Inr a'"
  shows "max_depth (stats a')
           = Max (insert 0 (eccentricity (succs (graph a)) ` set (root_nodes a)))"
proof -
  let ?g1 = "snd (select_empty (graph a) (nodes a))"
  have same: "succs ?g1 = succs (graph a)" by (rule succs_padded [OF padded_select_empty])
  from assms have "max_depth (stats a')
      = fst (depth_over_roots ?g1 (fst (select_empty (reverse_graph a) (nodes a))) 0)"
    by (auto simp: calculate_graph_metrics_def split_beta Let_def split: sum.splits)
  then show ?thesis
    by (simp add: depth_over_roots_max same select_empty_filter root_nodes_def)
qed

lemma metrics_return:
  "\<exists>L. \<forall>lim \<ge> L. \<exists>a'. calculate_graph_metrics lim a = Inr a'"
proof -
  let ?g2 = "fst (snd (snd (let (roots, rg1) = select_empty (reverse_graph a) (nodes a);
                 (leaves, g1) = select_empty (graph a) (nodes a);
                 (deepest, g2) = depth_over_roots g1 roots 0 in (roots, leaves, g2, deepest))))"
  let ?U = "set (nodes a) \<union> graph_universe ?g2"
  have "\<exists>a'. calculate_graph_metrics lim a = Inr a'" if "Suc (card ?U) \<le> lim" for lim
  proof -
    have "\<exists>st. dfs_from_each lim ?g2 (nodes a) \<lparr>visited = {}, rec_stack = {}, cycles = []\<rparr>
                  = Inr st"
    proof (rule dfs_from_each_returns [where U = ?U])
      show "finite ?U" by (simp add: graph_universe_def)
      show "\<forall>n. succs ?g2 n \<subseteq> ?U" using succs_in_universe by blast
      show "card ?U < lim" using that by simp
    qed simp_all
    then show ?thesis
      by (auto simp: calculate_graph_metrics_def detect_circular_dependencies_def
            split_beta Let_def)
  qed
  then show ?thesis by blast
qed

text \<open>
  C4. The maximum depth the metrics report is the greatest, over the roots (the nodes
  whose list in the reverse adjacency is empty) and over the nodes reachable from a
  root along the forward adjacency, of the number of edges of a shortest walk from the
  root to the node; without roots it is 0. It is 0 when no root has an out-edge. The
  metrics are reported once the recursion limit is large enough for the cycle search.
\<close>

theorem max_depth_is_greatest_shortest_distance:
  "(calculate_graph_metrics lim a = Inr a' \<longrightarrow>
      max_depth (stats a')
        = Max (insert 0 (\<Union>r \<in> set (root_nodes a).
                           hops (succs (graph a)) r ` reachable (succs (graph a)) r))
      \<and> (root_nodes a \<noteq> [] \<longrightarrow>
           max_depth (stats a')
             = Max (\<Union>r \<in> set (root_nodes a).
                      hops (succs (graph a)) r ` reachable (succs (graph a)) r))
      \<and> ((\<forall>r \<in> set (root_nodes a). dict_get (graph a) r [] = []) \<longrightarrow>
           max_depth (stats a') = 0))
   \<and> (\<exists>L. \<forall>lim \<ge> L. \<exists>a'. calculate_graph_metrics lim a = Inr a')"
proof (intro conjI impI)
  let ?E = "succs (graph a)"
  let ?S = "\<lambda>r. hops ?E r ` reachable ?E r"
  assume run: "calculate_graph_metrics lim a = Inr a'"
  have "Max (insert 0 ((\<lambda>r. Max (insert 0 (?S r))) ` set (root_nodes a)))
          = Max (insert 0 (\<Union>r \<in> set (root_nodes a). ?S r))"
    by (rule Max_of_Max) (simp_all add: finite_reachable)
  with metrics_max_depth [OF run]
  show main: "max_depth (stats a') = Max (insert 0 (\<Union>r \<in> set (root_nodes a). ?S r))"
    by (simp add: eccentricity_def)
  show "max_depth (stats a') = Max (\<Union>r \<in> set (root_nodes a). ?S r)"
    if ne: "root_nodes a \<noteq> []"
  proof -
    from ne obtain r where r: "r \<in> set (root_nodes a)" by (cases "root_nodes a") auto
    have "hops ?E r r \<in> ?S r" using root_reachable [of r ?E] by blast
    then have "0 \<in> (\<Union>r \<in> set (root_nodes a). ?S r)" using r hops_root [of ?E r] by force
    then have "insert 0 (\<Union>r \<in> set (root_nodes a). ?S r) = (\<Union>r \<in> set (root_nodes a). ?S r)"
      by auto
    with main show ?thesis by simp
  qed
  show "max_depth (stats a') = 0"
    if leaf: "\<forall>r \<in> set (root_nodes a). dict_get (graph a) r [] = []"
  proof -
    have "eccentricity ?E r = 0" if "r \<in> set (root_nodes a)" for r
      by (rule eccentricity_leaf) (use leaf that in \<open>simp add: succs_def\<close>)
    then have "eccentricity ?E ` set (root_nodes a) \<subseteq> {0}" by auto
    then have "insert 0 (eccentricity ?E ` set (root_nodes a)) = {0}" by auto
    with metrics_max_depth [OF run] show ?thesis by simp
  qed
next
  show "\<exists>L. \<forall>lim \<ge> L. \<exists>a'. calculate_graph_metrics lim a = Inr a'" by (rule metrics_return)
qed

theorem max_depth_is_greatest_shortest_distance_witness:
  "root_nodes leaf_example = [''o/a'']
   \<and> Max (\<Union>r \<in> set (root_nodes leaf_example).
             hops (succs (graph leaf_example)) r ` reachable (succs (graph leaf_example)) r) = 1"
proof -
  let ?a' = "leaf_example\<lparr>graph := [(''o/a'', [''o/b'']), (''o/b'', [])],
                         reverse_graph := [(''o/b'', [''o/a'']), (''o/a'', [])],
                         stats := \<lparr>total_nodes = 2, total_edges = 1, root_packages = 1,
                                   leaf_packages = 1, max_depth = 1,
                                   circular_dependencies = []\<rparr>\<rparr>"
  have roots: "root_nodes leaf_example = [''o/a'']"
    by (simp add: root_nodes_def leaf_example_def new_analyzer_def dict_get_def)
  then have ne: "root_nodes leaf_example \<noteq> []" by simp
  from max_depth_is_greatest_shortest_distance [of 3 leaf_example ?a'] leaf_example_metrics ne
  have "max_depth (stats ?a')
          = Max (\<Union>r \<in> set (root_nodes leaf_example).
                   hops (succs (graph leaf_example)) r ` reachable (succs (graph leaf_example)) r)"
    by blast
  then have "Max (\<Union>r \<in> set (root_nodes leaf_example).
                   hops (succs (graph leaf_example)) r ` reachable (succs (graph leaf_example)) r) = 1"
    by simp
  with roots show ?thesis by blast
qed


section \<open>No dangling edges\<close>

lemma edge_set_dict_set:
  "edge_set (dict_set d k v) \<subseteq> edge_set d \<union> {k} \<times> set v"
  by (induction d k v rule: dict_set.induct) (auto simp: edge_set_def)

lemma edge_set_dd_append: "edge_set (dd_append d k x) \<subseteq> insert (k, x) (edge_set d)"
proof -
  have "{k} \<times> set (fst (dd_getitem d k)) \<subseteq> edge_set d"
    by (auto simp: dd_getitem_def edge_set_def split: option.splits dest!: map_of_SomeD)
  with edge_set_dict_set [of d k "fst (dd_getitem d k) @ [x]"]
  show ?thesis unfolding dd_append_def by auto
qed

lemma set_set_add: "set (set_add s x) = insert x (set s)"
  by (auto simp: set_add_def)

lemma no_dangling_add_dependencies:
  "no_dangling a \<Longrightarrow> repo_key \<in> set (nodes a) \<Longrightarrow>
     no_dangling (add_dependencies repo_key deps a)"
proof (induction deps arbitrary: a)
  case Nil
  then show ?case by simp
next
  case (Cons dep deps)
  let ?a = "a\<lparr>graph := dd_append (graph a) repo_key dep,
               reverse_graph := dd_append (reverse_graph a) dep repo_key,
               nodes := set_add (nodes a) dep\<rparr>"
  have "no_dangling ?a"
    using Cons.prems edge_set_dd_append [of "graph a" repo_key dep]
      edge_set_dd_append [of "reverse_graph a" dep repo_key]
    unfolding no_dangling_def by (simp add: set_set_add) blast
  moreover have "repo_key \<in> set (nodes ?a)" using Cons.prems(2) by (simp add: set_set_add)
  ultimately show ?case using Cons.IH by simp
qed

lemma no_dangling_scan_package: "no_dangling a \<Longrightarrow> no_dangling (scan_package p a)"
proof (cases p)
  case (PackageDir dir_name is_dir package_swift)
  assume inv: "no_dangling a"
  show ?thesis
  proof (cases "is_dir \<and> package_swift \<noteq> None")
    case False
    with inv PackageDir show ?thesis by (auto simp: Let_def)
  next
    case True
    then obtain content where some: "package_swift = Some content" and dir: is_dir by auto
    let ?key = "replace_char CHR ''_'' CHR ''/'' dir_name"
    let ?a = "a\<lparr>package_info := dict_set (package_info a) ?key (parse_package_swift content),
                 nodes := set_add (nodes a) ?key\<rparr>"
    have "no_dangling ?a" using inv unfolding no_dangling_def by (simp add: set_set_add) blast
    moreover have "?key \<in> set (nodes ?a)" by (simp add: set_set_add)
    ultimately have "no_dangling (add_dependencies ?key
                        (dependencies (parse_package_swift content)) ?a)"
      by (rule no_dangling_add_dependencies)
    with PackageDir some dir show ?thesis by (simp add: Let_def)
  qed
qed

lemma no_dangling_fold_package:
  "no_dangling a \<Longrightarrow> no_dangling (fold scan_package listing a)"
  by (induction listing arbitrary: a) (simp_all add: no_dangling_scan_package)

lemma no_dangling_scan_root: "no_dangling a \<Longrightarrow> no_dangling (scan_root r a)"
  by (cases r) (simp add: no_dangling_fold_package)

lemma no_dangling_fold_root:
  "no_dangling a \<Longrightarrow> no_dangling (fold scan_root entries a)"
  by (induction entries arbitrary: a) (simp_all add: no_dangling_scan_root)

lemma no_dangling_scan:
  "no_dangling a \<Longrightarrow> no_dangling (scan_directory_structure base_dir a)"
  by (cases base_dir) (simp_all add: scan_directory_structure_def no_dangling_fold_root)

lemma no_dangling_new: "no_dangling new_analyzer"
  by (simp add: no_dangling_def new_analyzer_def edge_set_def)


section \<open>The parser and the normalizer\<close>






text \<open>
  C9. The analyzer's normalizer returns an identifier for a locator whose second path
  segment is empty, where the claim has it return none; the resolver's callers reject
  the same locator.
\<close>

theorem empty_segment_is_accepted:
  "extract_repo_info_from_url ''https://github.com/a//b'' = Inr (Some ''a/'')
   \<and> extract_repo_info ''https://github.com/a//b'' = Inr (Some ''a'', Some [])
   \<and> key_of ''https://github.com/a//b'' = None"
  by code_simp

theorem empty_segment_is_accepted_witness:
  "extract_repo_info_from_url ''https://github.com/a//b'' \<noteq> Inr None"
  using empty_segment_is_accepted by simp

text \<open>
  C5. The patterns are tried in the order the dictionary is written, which begins with
  the explicit \<open>from\<close>: a declaration with \<open>.upToNextMajor(from: ...)\<close> is classified
  as a plain \<open>from\<close>.
\<close>

theorem up_to_next_major_is_from:
  "analyze_version_constraint up_to_next_major_decl = Inr (FromV ''1.0.0'')
   \<and> map fst version_patterns
       = [From, UpToNextMajor, UpToNextMinor, Exact, Range, ClosedRange, RangeOperator,
          Branch, Revision]"
  by code_simp

theorem up_to_next_major_is_from_witness:
  "analyze_version_constraint up_to_next_major_decl \<noteq> Inr (UpToNextMajorV ''1.0.0'' 2)"
  using up_to_next_major_is_from by simp


section \<open>Where duplicates are removed\<close>

lemma add_urls_result:
  "distinct found \<Longrightarrow>
     distinct (add_urls urls found)
     \<and> set (add_urls urls found) = set found \<union> {u \<in> set urls. contains u ''github.com''}"
proof (induction urls arbitrary: found)
  case Nil
  then show ?case by simp
next
  case (Cons url urls)
  let ?found = "if contains url ''github.com'' then set_add found url else found"
  have "distinct ?found" using Cons.prems by (simp add: set_add_def)
  from Cons.IH [OF this] show ?case by (auto simp: set_add_def split: if_splits)
qed

lemma repo_key_not_empty: "extract_repo_info_from_url u = Inr (Some k) \<Longrightarrow> k \<noteq> []"
  by (auto simp: extract_repo_info_from_url_def split: sum.splits if_splits)

lemma add_repo_keys_result:
  "add_repo_keys urls found = Inr res \<Longrightarrow> distinct found \<Longrightarrow>
     distinct res
     \<and> set res = set found \<union> {k. \<exists>u \<in> set urls. contains u ''github.com''
                                     \<and> extract_repo_info_from_url u = Inr (Some k)}"
proof (induction urls arbitrary: found)
  case Nil
  then show ?case by simp
next
  case (Cons url urls)
  show ?case
  proof (cases "contains url ''github.com''")
    case False
    with Cons.prems(1) have "add_repo_keys urls found = Inr res" by simp
    from Cons.IH [OF this Cons.prems(2)] False show ?thesis by auto
  next
    case True
    with Cons.prems(1) obtain repo_key where
      key: "extract_repo_info_from_url url = Inr repo_key"
      by (cases "extract_repo_info_from_url url") auto
    show ?thesis
    proof (cases repo_key)
      case None
      with True key Cons.prems(1) have "add_repo_keys urls found = Inr res" by simp
      from Cons.IH [OF this Cons.prems(2)] True key None show ?thesis by auto
    next
      case (Some k)
      with key have "k \<noteq> []" by (simp add: repo_key_not_empty)
      with True key Some Cons.prems(1) have run: "add_repo_keys urls (set_add found k) = Inr res"
        by simp
      have "distinct (set_add found k)" using Cons.prems(2) by (simp add: set_add_def)
      from Cons.IH [OF run this] True key Some show ?thesis
        by (auto simp: set_add_def split: if_splits)
    qed
  qed
qed

lemma found_locators_empty: "found_locators [] = []"
  by code_simp

lemma dd_append_get: "dict_get (dd_append d k x) k' [] = (if k' = k then dict_get d k [] @ [x] else dict_get d k' [])"
  by (simp add: dd_append_def dd_getitem_def dict_get_def map_of_dict_set split: option.splits)

lemma add_dependencies_graph:
  "dict_get (graph (add_dependencies repo_key deps a)) repo_key []
     = dict_get (graph a) repo_key [] @ deps"
  by (induction deps arbitrary: a) (simp_all add: dd_append_get)

text \<open>
  C2, as the code has it. The resolver's parser returns each distinct locator string
  once: identical declarations collapse, different spellings of one identifier are all
  returned. The analyzer's parser normalizes each locator first and returns each distinct
  identifier once, and the scan adds one edge for each identifier returned: there,
  different spellings of one identifier collapse to one dependency and one edge.
\<close>

theorem duplicates_by_locator_or_by_identifier:
  "(extract_dependencies_from_content content = Inr deps \<longrightarrow>
      distinct deps
      \<and> set deps = {u \<in> set (section_locators content). contains u ''github.com''})
   \<and> (parse_content content = Inr info \<longrightarrow>
        distinct (dependencies info)
        \<and> set (dependencies info)
            = {k. \<exists>u \<in> set (section_locators content).
                    contains u ''github.com'' \<and> extract_repo_info_from_url u = Inr (Some k)})
   \<and> dict_get (graph (scan_package (PackageDir dir_name True (Some text)) a))
        (replace_char CHR ''_'' CHR ''/'' dir_name) []
       = dict_get (graph a) (replace_char CHR ''_'' CHR ''/'' dir_name) []
           @ dependencies (parse_package_swift text)"
proof -
  have a: "distinct deps
      \<and> set deps = {u \<in> set (section_locators content). contains u ''github.com''}"
    if run: "extract_dependencies_from_content content = Inr deps"
  proof -
    have "deps = add_urls (section_locators content) []"
      using run
      by (auto simp: extract_dependencies_from_content_def section_locators_def Let_def
            split: option.splits sum.splits if_splits)
    with add_urls_result [of "[]" "section_locators content"] show ?thesis by simp
  qed
  have b: "distinct (dependencies info)
        \<and> set (dependencies info)
            = {k. \<exists>u \<in> set (section_locators content).
                    contains u ''github.com'' \<and> extract_repo_info_from_url u = Inr (Some k)}"
    if run: "parse_content content = Inr info"
  proof -
    have "add_repo_keys (section_locators content) [] = Inr (dependencies info)"
      using run
      by (auto simp: parse_content_def section_locators_def group_def group_or_empty_def
            found_locators_empty split: option.splits sum.splits)
    from add_repo_keys_result [OF this] show ?thesis by simp
  qed
  have c: "dict_get (graph (scan_package (PackageDir dir_name True (Some text)) a))
        (replace_char CHR ''_'' CHR ''/'' dir_name) []
       = dict_get (graph a) (replace_char CHR ''_'' CHR ''/'' dir_name) []
           @ dependencies (parse_package_swift text)"
    by (simp add: Let_def add_dependencies_graph)
  from a b c show ?thesis by blast
qed

lemma two_spellings_resolver:
  "extract_dependencies_from_content two_spellings_manifest
     = Inr [''https://github.com/foo/bar'', ''https://github.com/foo/bar.git'']"
  by code_simp

lemma two_spellings_analyzer:
  "parse_content two_spellings_manifest
     = Inr \<lparr>dependencies = [''foo/bar''], package_name = None, has_package_swift = True,
            error_of = None\<rparr>"
  by code_simp

theorem duplicates_by_locator_or_by_identifier_witness:
  "set [''https://github.com/foo/bar'', ''https://github.com/foo/bar.git'']
     = {u \<in> set (section_locators two_spellings_manifest). contains u ''github.com''}
   \<and> set [''foo/bar'']
       = {k. \<exists>u \<in> set (section_locators two_spellings_manifest).
               contains u ''github.com'' \<and> extract_repo_info_from_url u = Inr (Some k)}"
  using duplicates_by_locator_or_by_identifier
          [of two_spellings_manifest
              "[''https://github.com/foo/bar'', ''https://github.com/foo/bar.git'']"
              "\<lparr>dependencies = [''foo/bar''], package_name = None, has_package_swift = True,
                error_of = None\<rparr>"]
        two_spellings_resolver two_spellings_analyzer
  by simp

theorem spellings_collapse_in_analyzer_counterexample:
  "extract_repo_info_from_url ''https://github.com/foo/bar'' = Inr (Some ''foo/bar'')
   \<and> extract_repo_info_from_url ''https://github.com/foo/bar.git'' = Inr (Some ''foo/bar'')
   \<and> dependencies (parse_package_swift (Inr two_spellings_manifest)) = [''foo/bar'']
   \<and> graph (scan_directory_structure two_spellings_tree new_analyzer)
       = [(''o/r'', [''foo/bar''])]"
  by code_simp


section \<open>The resolver\<close>

lemma edge_set_dict_set_append:
  assumes "map_of d k = Some ts"
  shows "edge_set (dict_set d k (ts @ [x])) \<subseteq> insert (k, x) (edge_set d)"
proof -
  from assms have "(k, ts) \<in> set d" by (rule map_of_SomeD)
  then have "{k} \<times> set ts \<subseteq> edge_set d" by (auto simp: edge_set_def)
  with edge_set_dict_set [of d k "ts @ [x]"] show ?thesis by auto
qed

lemma resolver_fields [simp]:
  "fetched (note_fetch k st) = fetched st @ [k]"
  "processed_repos (note_fetch k st) = processed_repos st"
  "failed_repos (note_fetch k st) = failed_repos st"
  "dependency_graph (note_fetch k st) = dependency_graph st"
  "fetched (mark_failed k st) = fetched st"
  "processed_repos (mark_failed k st) = processed_repos st"
  "failed_repos (mark_failed k st) = insert k (failed_repos st)"
  "dependency_graph (mark_failed k st) = dependency_graph st"
  "fetched (mark_processed k st) = fetched st"
  "processed_repos (mark_processed k st) = insert k (processed_repos st)"
  "failed_repos (mark_processed k st) = failed_repos st"
  "dependency_graph (mark_processed k st) = dependency_graph st"
  "fetched (begin_dependencies k deps st) = fetched st"
  "processed_repos (begin_dependencies k deps st) = processed_repos st"
  "failed_repos (begin_dependencies k deps st) = failed_repos st"
  "fetched (add_edge k ts x st) = fetched st"
  "processed_repos (add_edge k ts x st) = processed_repos st"
  "failed_repos (add_edge k ts x st) = failed_repos st"
  "dependency_graph (add_edge k ts x st) = dict_set (dependency_graph st) k (ts @ [x])"
  "fetched (on_exception k st) = fetched st"
  "processed_repos (on_exception k st) = processed_repos st"
  "failed_repos (on_exception k st) = insert k (failed_repos st)"
  "dependency_graph (on_exception k st) = dependency_graph st"
  by (simp_all add: note_fetch_def mark_failed_def mark_processed_def begin_dependencies_def
        add_edge_def on_exception_def)

lemma edge_set_begin_dependencies:
  "edge_set (dependency_graph (begin_dependencies k deps st)) \<subseteq> edge_set (dependency_graph st)"
  using edge_set_dict_set [of "dependency_graph st" k "[]"]
  by (auto simp: begin_dependencies_def)

text \<open>
  One induction over the two functions carries everything the resolver maintains: the
  fetch log, the edges, the growth of the two sets, and that the identifier a call was
  made for ends up visited or failed.
\<close>

lemma resolver_post_same:
  "fetched_once st \<Longrightarrow> edges_attempted S X st \<Longrightarrow> resolver_post S X st st"
  by (simp add: resolver_post_def)

lemma resolver_post_step:
  assumes "resolver_post S X st s"
    and "fetched s' = fetched s \<or> (fetched s' = fetched s @ [k] \<and> k \<notin> attempted s)"
    and "set (fetched s') \<subseteq> attempted s'"
    and "processed_repos s \<subseteq> processed_repos s'" and "failed_repos s \<subseteq> failed_repos s'"
    and "edge_set (dependency_graph s') \<subseteq> edge_set (dependency_graph s)"
  shows "resolver_post S X st s'"
proof -
  from assms(1) have a: "distinct (fetched s)" "set (fetched s) \<subseteq> attempted s"
    "edges_attempted S X s" "processed_repos st \<subseteq> processed_repos s"
    "failed_repos st \<subseteq> failed_repos s"
    by (simp_all add: resolver_post_def fetched_once_def)
  have "distinct (fetched s')" using assms(2) a(1,2) by auto
  moreover have "edges_attempted S X s'"
    using a(3) assms(4,5,6) unfolding edges_attempted_def attempted_def by blast
  ultimately show ?thesis
    using assms(3,4,5) a(4,5) by (auto simp: resolver_post_def fetched_once_def)
qed

lemma resolver_invariants:
  shows "download_package_swift fuel fetch github_url root_repo_key depth st = Some (ok, st') \<Longrightarrow>
           fetched_once st \<Longrightarrow> edges_attempted S X st \<Longrightarrow>
           resolver_post S X st st' \<and> (\<forall>k. key_of github_url = Some k \<longrightarrow> k \<in> attempted st')"
    and "resolve_dependencies fuel fetch repo_key deps root_repo_key depth st = Some (r, st') \<Longrightarrow>
           fetched_once st \<Longrightarrow> edges_attempted S X st \<Longrightarrow> repo_key \<in> attempted st \<Longrightarrow>
           resolver_post S X st st'"
proof (induction fuel fetch github_url root_repo_key depth st
         and fuel fetch repo_key deps root_repo_key depth st
       arbitrary: ok st' X and r st' X
       rule: download_package_swift_resolve_dependencies.induct)
  case (1 fetch github_url root_repo_key depth st)
  then show ?case by simp
next
  case (2 fuel fetch github_url root_repo_key depth st)
  note run = "2.prems"(1) and log = "2.prems"(2) and edges = "2.prems"(3)
  have same: "resolver_post S X st st" using log edges by (rule resolver_post_same)
  show ?case
  proof (cases "extract_repo_info github_url")
    case (Inl e)
    with run have st': "st' = st\<lparr>failed_downloads := failed_downloads st + 1\<rparr>" by simp
    have "resolver_post S X st st'"
      by (rule resolver_post_step [OF same, of _ undefined])
         (use log in \<open>auto simp: st' fetched_once_def attempted_def\<close>)
    with Inl show ?thesis by (simp add: key_of_def)
  next
    case (Inr b)
    show ?thesis
    proof (cases "repo_key_of b")
      case None
      with run Inr have "st' = st" by simp
      with same Inr None show ?thesis by (simp add: key_of_def)
    next
      case (Some k)
      then have key: "key_of github_url = Some k" using Inr by (simp add: key_of_def)
      show ?thesis
      proof (cases "k \<in> attempted st")
        case True
        with run Inr Some have "st' = st" by (simp add: attempted_def)
        with same True key show ?thesis by simp
      next
        case fresh: False
        then have nk: "\<not> (k \<in> processed_repos st \<or> k \<in> failed_repos st)"
          by (simp add: attempted_def)
        let ?st1 = "mark_processed k (note_fetch k st)"
        have post1: "resolver_post S X st ?st1"
          by (rule resolver_post_step [OF same, of _ k])
             (use log fresh in \<open>auto simp: fetched_once_def attempted_def\<close>)
        have exc: "resolver_post S X st (on_exception k s)"
          if "resolver_post S X st s" "k \<in> attempted s" for s
          by (rule resolver_post_step [OF that(1), of _ k])
             (use that in \<open>auto simp: resolver_post_def fetched_once_def attempted_def\<close>)
        show ?thesis
        proof (cases "fetch k")
          case Raises
          with run Inr Some nk have st': "st' = on_exception k (note_fetch k st)" by simp
          have "resolver_post S X st st'" unfolding st'
            by (rule resolver_post_step [OF same, of _ k])
               (use log fresh in \<open>auto simp: fetched_once_def attempted_def\<close>)
          with key show ?thesis by (simp add: st' attempted_def)
        next
          case NoManifest
          with run Inr Some nk have st': "st' = mark_failed k (note_fetch k st)" by simp
          have "resolver_post S X st st'" unfolding st'
            by (rule resolver_post_step [OF same, of _ k])
               (use log fresh in \<open>auto simp: fetched_once_def attempted_def\<close>)
          with key show ?thesis by (simp add: st' attempted_def)
        next
          case (Manifest content)
          show ?thesis
          proof (cases "extract_dependencies_from_content content")
            case (Inl e)
            with run Inr Some nk Manifest have st': "st' = on_exception k ?st1" by simp
            have "resolver_post S X st st'" unfolding st'
              by (rule exc [OF post1]) (simp add: attempted_def)
            with key show ?thesis by (simp add: st' attempted_def)
          next
            case deps: (Inr deps)
            show ?thesis
            proof (cases "deps = []")
              case True
              with run Inr Some nk Manifest deps have "st' = ?st1" by simp
              with post1 key show ?thesis by (simp add: attempted_def)
            next
              case False
              let ?st2 = "begin_dependencies k deps ?st1"
              from run Inr Some nk Manifest deps False obtain r st3 where
                loop: "resolve_dependencies fuel fetch k deps root_repo_key depth ?st2
                         = Some (r, st3)"
                and st': "st' = (case r of Some e \<Rightarrow> on_exception k st3 | None \<Rightarrow> st3)"
                by (auto split: option.splits prod.splits)
              have post2: "resolver_post S X st ?st2"
                by (rule resolver_post_step [OF post1, of _ k])
                   (use post1 edge_set_begin_dependencies [of k deps ?st1]
                    in \<open>auto simp: resolver_post_def fetched_once_def attempted_def\<close>)
              then have log2: "fetched_once ?st2" and edges2: "edges_attempted S X ?st2"
                by (simp_all add: resolver_post_def)
              have k2: "k \<in> attempted ?st2" by (simp add: attempted_def)
              have "resolver_post S X ?st2 st3"
                by (rule "2.IH" [OF Inr Some nk Manifest deps False loop log2 edges2 k2])
              then have post3: "resolver_post S X st st3" and k3: "k \<in> attempted st3"
                by (auto simp: resolver_post_def attempted_def)
              show ?thesis
              proof (cases r)
                case None
                with st' post3 k3 key show ?thesis by simp
              next
                case (Some e)
                with st' exc [OF post3 k3] key show ?thesis by (simp add: attempted_def)
              qed
            qed
          qed
        qed
      qed
    qed
  qed
next
  case (3 fuel fetch repo_key root_repo_key depth st)
  then show ?case by (simp add: resolver_post_same)
next
  case (4 fuel fetch repo_key dep_url others root_repo_key depth st)
  note run = "4.prems"(1) and log = "4.prems"(2) and edges = "4.prems"(3)
    and src = "4.prems"(4)
  show ?case
  proof (cases "extract_repo_info dep_url")
    case (Inl e)
    with run have "st' = st" by simp
    with log edges show ?thesis by (simp add: resolver_post_same)
  next
    case (Inr b)
    show ?thesis
    proof (cases "repo_key_of b")
      case None
      with run Inr have "resolve_dependencies fuel fetch repo_key others root_repo_key depth st
                           = Some (r, st')" by simp
      from "4.IH"(1) [OF Inr None this log edges src] show ?thesis .
    next
      case (Some dep_key)
      show ?thesis
      proof (cases "map_of (dependency_graph st) repo_key")
        case None
        with run Inr Some have "st' = st" by simp
        with log edges show ?thesis by (simp add: resolver_post_same)
      next
        case targets: (Some targets)
        let ?sta = "add_edge repo_key targets dep_key st"
        from run Inr Some targets obtain ok1 stb where
          call: "download_package_swift fuel fetch dep_url root_repo_key (depth + 1) ?sta
                   = Some (ok1, stb)"
          and rest: "resolve_dependencies fuel fetch repo_key others root_repo_key depth stb
                       = Some (r, st')"
          by (auto split: option.splits prod.splits)
        have loga: "fetched_once ?sta" using log by (simp add: fetched_once_def attempted_def)
        have edgesa: "edges_attempted S (insert dep_key X) ?sta"
          using edges src edge_set_dict_set_append [OF targets, of dep_key]
          unfolding edges_attempted_def attempted_def by auto
        have key: "key_of dep_url = Some dep_key" using Inr Some by (simp add: key_of_def)
        from "4.IH"(2) [OF Inr Some targets call loga edgesa] key
        have postb: "resolver_post S (insert dep_key X) ?sta stb"
          and depb: "dep_key \<in> attempted stb" by simp_all
        from postb have monob: "processed_repos st \<subseteq> processed_repos stb"
          "failed_repos st \<subseteq> failed_repos stb" and logb: "fetched_once stb"
          by (simp_all add: resolver_post_def)
        have edgesb: "edges_attempted S X stb"
          using postb depb unfolding resolver_post_def edges_attempted_def by auto
        have srcb: "repo_key \<in> attempted stb" using src monob by (auto simp: attempted_def)
        from "4.IH"(3) [OF Inr Some targets call refl rest logb edgesb srcb]
        have "resolver_post S X stb st'" .
        with monob show ?thesis by (auto simp: resolver_post_def)
      qed
    qed
  qed
qed





lemma run_invariants:
  "process_all_repositories fuel fetch seeds st = Some (Inr st') \<Longrightarrow>
     fetched_once st \<Longrightarrow> edges_attempted S {} st \<Longrightarrow>
     fetched_once st' \<and> edges_attempted S {} st'"
proof (induction seeds arbitrary: st)
  case Nil
  then show ?case by simp
next
  case (Cons github_url others)
  show ?case
  proof (cases "key_of github_url")
    case None
    with Cons.prems(1) have "process_all_repositories fuel fetch others st = Some (Inr st')"
      by (auto simp: key_of_def split: sum.splits option.splits)
    from Cons.IH [OF this Cons.prems(2,3)] show ?thesis .
  next
    case (Some k)
    with Cons.prems(1) obtain ok st1 where
      call: "download_package_swift fuel fetch github_url k 0 st = Some (ok, st1)"
      and rest: "process_all_repositories fuel fetch others st1 = Some (Inr st')"
      by (auto simp: key_of_def split: sum.splits option.splits)
    from resolver_invariants(1) [OF call Cons.prems(2,3)]
    have "fetched_once st1" "edges_attempted S {} st1" by (simp_all add: resolver_post_def)
    from Cons.IH [OF rest this] show ?thesis .
  qed
qed


lemma new_resolver_ok: "fetched_once new_resolver" "edges_attempted S X new_resolver"
  by (simp_all add: fetched_once_def edges_attempted_def new_resolver_def edge_set_def)


section \<open>What the resolver guarantees\<close>

lemma two_spellings_scan:
  "scan_directory_structure two_spellings_tree new_analyzer
     = new_analyzer\<lparr>graph := [(''o/r'', [''foo/bar''])],
                      reverse_graph := [(''foo/bar'', [''o/r''])],
                      nodes := [''o/r'', ''foo/bar''],
                      package_info := [(''o/r'', \<lparr>dependencies = [''foo/bar''],
                                                   package_name = None,
                                                   has_package_swift = True,
                                                   error_of = None\<rparr>)]\<rparr>"
  by code_simp

text \<open>
  C7. Every graph the scan builds has both ends of every edge in its node set. The
  resolver keeps no node set of its own; the identifiers it has attempted are the visited
  and the failed ones, and at the end of a run every edge it recorded joins two of them.
\<close>

theorem no_dangling_edges:
  "no_dangling (scan_directory_structure base_dir new_analyzer)
   \<and> (no_dangling a \<longrightarrow> no_dangling (scan_directory_structure base_dir a))
   \<and> (process_all_repositories fuel fetch seeds new_resolver = Some (Inr st) \<longrightarrow>
        (\<forall>(s, t) \<in> edge_set (dependency_graph st). s \<in> attempted st \<and> t \<in> attempted st))"
proof (intro conjI impI)
  show "no_dangling (scan_directory_structure base_dir new_analyzer)"
    by (rule no_dangling_scan [OF no_dangling_new])
next
  assume "no_dangling a"
  then show "no_dangling (scan_directory_structure base_dir a)" by (rule no_dangling_scan)
next
  assume "process_all_repositories fuel fetch seeds new_resolver = Some (Inr st)"
  from run_invariants [OF this new_resolver_ok(1) new_resolver_ok(2) [of "{}" "{}"]]
  show "\<forall>(s, t) \<in> edge_set (dependency_graph st). s \<in> attempted st \<and> t \<in> attempted st"
    by (auto simp: edges_attempted_def)
qed

theorem no_dangling_edges_witness:
  "(''o/r'', ''foo/bar'') \<in> edge_set (graph (scan_directory_structure two_spellings_tree new_analyzer))
   \<and> ''o/r'' \<in> set (nodes (scan_directory_structure two_spellings_tree new_analyzer))
   \<and> ''foo/bar'' \<in> set (nodes (scan_directory_structure two_spellings_tree new_analyzer))"
proof -
  let ?a = "scan_directory_structure two_spellings_tree new_analyzer"
  have edge: "(''o/r'', ''foo/bar'') \<in> edge_set (graph ?a)"
    by (simp add: two_spellings_scan edge_set_def)
  from no_dangling_edges [of two_spellings_tree] have "no_dangling ?a" by blast
  with edge show ?thesis unfolding no_dangling_def by blast
qed






section \<open>An endless chain of packages\<close>







lemma split_char_not_empty: "split_char c s \<noteq> []"
  by (induction s) (simp_all split: list.splits)

lemma split_char_skip:
  "a \<noteq> c \<Longrightarrow> split_char c (replicate n a @ v)
     = (replicate n a @ hd (split_char c v)) # tl (split_char c v)"
  using split_char_not_empty [of c v]
  by (induction n) (auto split: list.splits)






























end
